theory Spec2Isabelle
  imports Main "HOL-Library.Word"
begin

unbundle bit_operations_syntax

section \<open>Strings as the hash normalizer sees them\<close>

text \<open>
  \<^verbatim>\<open>scraper_api/models.py\<close> normalizes with Python's \<^verbatim>\<open>str.strip\<close>, \<^verbatim>\<open>str.split\<close>,
  \<^verbatim>\<open>str.join\<close> and \<^verbatim>\<open>str.lower\<close>. A Python string is modelled as a \<^typ>\<open>string\<close> whose
  characters are the code points below 256. On these code points Python's whitespace
  (\<^verbatim>\<open>str.isspace\<close>) is U+0009..U+000D, U+001C..U+0020, U+0085 and U+00A0, and
  \<^verbatim>\<open>str.lower\<close> adds 32 to A..Z and to U+00C0..U+00DE except U+00D7.
\<close>

definition isspace :: "char \<Rightarrow> bool" where
  "isspace c =
     (let n = (of_char c :: nat)
      in (9 \<le> n \<and> n \<le> 13) \<or> (28 \<le> n \<and> n \<le> 32) \<or> n = 133 \<or> n = 160)"

definition lower_char :: "char \<Rightarrow> char" where
  "lower_char c =
     (let n = (of_char c :: nat)
      in if (65 \<le> n \<and> n \<le> 90) \<or> (192 \<le> n \<and> n \<le> 222 \<and> n \<noteq> 215)
         then char_of (n + 32) else c)"

definition lower :: "string \<Rightarrow> string" where
  "lower s = map lower_char s"

definition strip :: "string \<Rightarrow> string" where
  "strip s = rev (dropWhile isspace (rev (dropWhile isspace s)))"

text \<open>\<^verbatim>\<open>s.split()\<close>: the maximal runs of non-whitespace characters, in order.\<close>

function split :: "string \<Rightarrow> string list" where
  "split s =
     (case dropWhile isspace s of
        [] \<Rightarrow> []
      | c # cs \<Rightarrow> takeWhile (\<lambda>x. \<not> isspace x) (c # cs)
                   # split (dropWhile (\<lambda>x. \<not> isspace x) (c # cs)))"
  by pat_completeness auto
termination
proof (relation "measure length")
  show "wf (measure length)" by simp
next
  fix s :: string and c cs
  assume d: "dropWhile isspace s = c # cs"
  have "length (dropWhile (\<lambda>x. \<not> isspace x) (c # cs)) \<le> length (c # cs)"
    by (rule length_dropWhile_le)
  moreover have "\<not> isspace c"
    using d by (metis hd_dropWhile list.sel(1) list.distinct(1))
  ultimately have "length (dropWhile (\<lambda>x. \<not> isspace x) (c # cs)) < length (c # cs)"
    by (simp add: le_imp_less_Suc length_dropWhile_le)
  moreover have "length (c # cs) \<le> length s"
    using d length_dropWhile_le [of isspace s] by simp
  ultimately show "(dropWhile (\<lambda>x. \<not> isspace x) (c # cs), s) \<in> measure length"
    by simp
qed

declare split.simps [simp del]

text \<open>\<^verbatim>\<open>sep.join(ws)\<close>.\<close>

fun join :: "string \<Rightarrow> string list \<Rightarrow> string" where
  "join sep [] = []"
| "join sep [w] = w"
| "join sep (w # v # ws) = w @ sep @ join sep (v # ws)"

text \<open>Python truthiness of an optional string: \<^verbatim>\<open>x or ""\<close>.\<close>

definition or_empty :: "string option \<Rightarrow> string" where
  "or_empty x = (case x of None \<Rightarrow> [] | Some s \<Rightarrow> s)"

text \<open>\<^verbatim>\<open>s or d\<close> on strings.\<close>

definition or_default :: "string \<Rightarrow> string \<Rightarrow> string" where
  "or_default s d = (if s \<noteq> [] then s else d)"

definition truthy :: "string option \<Rightarrow> bool" where
  "truthy x = (case x of None \<Rightarrow> False | Some s \<Rightarrow> s \<noteq> [])"

section \<open>SHA-256 (hashlib.sha256) on the UTF-8 encoding\<close>

type_synonym byte = "8 word"
type_synonym w32 = "32 word"

definition utf8_char :: "char \<Rightarrow> byte list" where
  "utf8_char c =
     (let n = (of_char c :: nat)
      in if n < 128 then [of_nat n] else [of_nat (192 + n div 64), of_nat (128 + n mod 64)])"

definition encode_utf8 :: "string \<Rightarrow> byte list" where
  "encode_utf8 s = concat (map utf8_char s)"

definition rotr :: "nat \<Rightarrow> w32 \<Rightarrow> w32" where
  "rotr n x = drop_bit n x OR push_bit (32 - n) x"

definition Ch :: "w32 \<Rightarrow> w32 \<Rightarrow> w32 \<Rightarrow> w32" where
  "Ch x y z = (x AND y) XOR (NOT x AND z)"

definition Maj :: "w32 \<Rightarrow> w32 \<Rightarrow> w32 \<Rightarrow> w32" where
  "Maj x y z = (x AND y) XOR (x AND z) XOR (y AND z)"

definition bsig0 :: "w32 \<Rightarrow> w32" where
  "bsig0 x = rotr 2 x XOR rotr 13 x XOR rotr 22 x"

definition bsig1 :: "w32 \<Rightarrow> w32" where
  "bsig1 x = rotr 6 x XOR rotr 11 x XOR rotr 25 x"

definition ssig0 :: "w32 \<Rightarrow> w32" where
  "ssig0 x = rotr 7 x XOR rotr 18 x XOR drop_bit 3 x"

definition ssig1 :: "w32 \<Rightarrow> w32" where
  "ssig1 x = rotr 17 x XOR rotr 19 x XOR drop_bit 10 x"

text \<open>The 64 round constants of FIPS 180-4, four to a row.\<close>

definition sha256_K :: "w32 list" where
  "sha256_K = concat
    [[0x428a2f98, 0x71374491, 0xb5c0fbcf, 0xe9b5dba5],
     [0x3956c25b, 0x59f111f1, 0x923f82a4, 0xab1c5ed5],
     [0xd807aa98, 0x12835b01, 0x243185be, 0x550c7dc3],
     [0x72be5d74, 0x80deb1fe, 0x9bdc06a7, 0xc19bf174],
     [0xe49b69c1, 0xefbe4786, 0x0fc19dc6, 0x240ca1cc],
     [0x2de92c6f, 0x4a7484aa, 0x5cb0a9dc, 0x76f988da],
     [0x983e5152, 0xa831c66d, 0xb00327c8, 0xbf597fc7],
     [0xc6e00bf3, 0xd5a79147, 0x06ca6351, 0x14292967],
     [0x27b70a85, 0x2e1b2138, 0x4d2c6dfc, 0x53380d13],
     [0x650a7354, 0x766a0abb, 0x81c2c92e, 0x92722c85],
     [0xa2bfe8a1, 0xa81a664b, 0xc24b8b70, 0xc76c51a3],
     [0xd192e819, 0xd6990624, 0xf40e3585, 0x106aa070],
     [0x19a4c116, 0x1e376c08, 0x2748774c, 0x34b0bcb5],
     [0x391c0cb3, 0x4ed8aa4a, 0x5b9cca4f, 0x682e6ff3],
     [0x748f82ee, 0x78a5636f, 0x84c87814, 0x8cc70208],
     [0x90befffa, 0xa4506ceb, 0xbef9a3f7, 0xc67178f2]]"

type_synonym sha_state = "w32 \<times> w32 \<times> w32 \<times> w32 \<times> w32 \<times> w32 \<times> w32 \<times> w32"

definition sha256_H0 :: sha_state where
  "sha256_H0 =
    (0x6a09e667, 0xbb67ae85, 0x3c6ef372, 0xa54ff53a, 0x510e527f, 0x9b05688c, 0x1f83d9ab, 0x5be0cd19)"

definition be64 :: "nat \<Rightarrow> byte list" where
  "be64 n = (let w = (of_nat n :: 64 word) in map (\<lambda>i. ucast (drop_bit (8 * (7 - i)) w)) [0..<8])"

definition sha256_pad :: "byte list \<Rightarrow> byte list" where
  "sha256_pad m =
     m @ [0x80] @ replicate ((119 - length m mod 64) mod 64) 0 @ be64 (8 * length m)"

definition be32 :: "byte list \<Rightarrow> w32" where
  "be32 bs = foldl (\<lambda>acc b. push_bit 8 acc OR ucast b) 0 bs"

definition block_words :: "byte list \<Rightarrow> w32 list" where
  "block_words blk = map (\<lambda>i. be32 (take 4 (drop (4 * i) blk))) [0..<16]"

fun extend_schedule :: "nat \<Rightarrow> w32 list \<Rightarrow> w32 list" where
  "extend_schedule 0 w = w"
| "extend_schedule (Suc n) w =
     (let t = length w
      in extend_schedule n
           (w @ [ssig1 (w ! (t - 2)) + w ! (t - 7) + ssig0 (w ! (t - 15)) + w ! (t - 16)]))"

definition sha_round :: "sha_state \<Rightarrow> w32 \<times> w32 \<Rightarrow> sha_state" where
  "sha_round s kw =
     (case s of (a, b, c, d, e, f, g, h) \<Rightarrow>
        let t1 = h + bsig1 e + Ch e f g + fst kw + snd kw;
            t2 = bsig0 a + Maj a b c
        in (t1 + t2, a, b, c, d + t1, e, f, g))"

definition sha_add :: "sha_state \<Rightarrow> sha_state \<Rightarrow> sha_state" where
  "sha_add s s' =
     (case s of (a, b, c, d, e, f, g, h) \<Rightarrow>
      case s' of (a', b', c', d', e', f', g', h') \<Rightarrow>
        (a + a', b + b', c + c', d + d', e + e', f + f', g + g', h + h'))"

definition sha_compress :: "sha_state \<Rightarrow> byte list \<Rightarrow> sha_state" where
  "sha_compress s blk =
     sha_add s (foldl sha_round s (zip sha256_K (extend_schedule 48 (block_words blk))))"

definition sha256 :: "byte list \<Rightarrow> sha_state" where
  "sha256 m =
     (let p = sha256_pad m
      in foldl sha_compress sha256_H0
           (map (\<lambda>i. take 64 (drop (64 * i) p)) [0..<length p div 64]))"

definition hexchars :: string where
  "hexchars = ''0123456789abcdef''"

definition hex32 :: "w32 \<Rightarrow> string" where
  "hex32 w = map (\<lambda>i. hexchars ! unat (drop_bit (28 - 4 * i) w AND 0xF)) [0..<8]"

definition hexdigest :: "sha_state \<Rightarrow> string" where
  "hexdigest s =
     (case s of (a, b, c, d, e, f, g, h) \<Rightarrow>
        hex32 a @ hex32 b @ hex32 c @ hex32 d @ hex32 e @ hex32 f @ hex32 g @ hex32 h)"

section \<open>compute_quote_hash\<close>

definition norm_text :: "string option \<Rightarrow> string" where
  "norm_text text = lower (join '' '' (split (strip (or_empty text))))"

definition norm_author :: "string option \<Rightarrow> string" where
  "norm_author author_name = lower (strip (or_empty author_name))"

definition compute_quote_hash :: "string option \<Rightarrow> string option \<Rightarrow> string" where
  "compute_quote_hash text author_name =
     (let payload = norm_text text @ ''|'' @ norm_author author_name
      in hexdigest (sha256 (encode_utf8 payload)))"

definition good_word :: "string \<Rightarrow> bool" where
  "good_word w = (w \<noteq> [] \<and> list_all (\<lambda>c. \<not> isspace c) w)"

section \<open>Data model (scraper\_api/models.py)\<close>

text \<open>
  Each Django model is a record of the fields the scraping engine reads or writes; the
  display name of a site, the initiator tag, the metadata blob and the
  \<^verbatim>\<open>created_at\<close>/\<^verbatim>\<open>updated_at\<close> stamps are left out. Foreign keys are the primary key of
  the row they point to. \<^verbatim>\<open>IntegerField\<close> counters are Python integers.
\<close>

type_synonym timestamp = nat

datatype Status = PENDING | RUNNING | SUCCESS | PARTIAL | FAILED

record ScrapeSite =
  site_id :: nat
  base_url :: string
  start_path :: string
  quote_selector :: string
  author_selector :: string
  pagination_selector :: string
  max_pages :: nat
  rate_limit_ms :: nat
  active :: bool

record Author =
  author_id :: nat
  author_name :: string

record ScrapeJob =
  job_id :: string
  job_site :: nat
  status :: Status
  started_at :: "timestamp option"
  finished_at :: "timestamp option"
  quotes_fetched :: int
  quotes_saved :: int
  errors_count :: int

record ScrapeError =
  err_job :: string
  err_url :: "string option"
  error_type :: string
  message :: string

text \<open>A stored Quote row, and a Quote instance in memory (its author is the loaded object).\<close>

record Quote =
  q_text :: string
  q_author :: "nat option"
  q_site :: nat
  q_source_url :: "string option"
  q_hash :: string
  q_saved_by_job :: "string option"

record Quote_obj =
  quote_text :: string
  author :: "Author option"
  site :: nat
  source_url :: "string option"
  hash :: string
  saved_by_job :: "string option"

text \<open>Exceptions are values; \<open>str_exn\<close> is Python's \<^verbatim>\<open>str(e)\<close>.\<close>

datatype exn =
    DoesNotExist string
  | DatabaseError string
  | IntegrityError string
  | ValidationError string
  | RequestException string
  | OtherError string

fun str_exn :: "exn \<Rightarrow> string" where
  "str_exn (DoesNotExist m) = m"
| "str_exn (DatabaseError m) = m"
| "str_exn (IntegrityError m) = m"
| "str_exn (ValidationError m) = m"
| "str_exn (RequestException m) = m"
| "str_exn (OtherError m) = m"

text \<open>The lines the task logger receives (\<^verbatim>\<open>logger.info\<close>, \<^verbatim>\<open>logger.exception\<close>).\<close>

datatype log_line =
    Info_start string
  | Info_fetching string string
  | Exception_parse string
  | Info_finished string
  | Exception_fatal string

text \<open>
  The backing store: one table per model, the job and site tables keyed by primary key,
  and the worker's log. Rows are never deleted by the engine.
\<close>

record db =
  sites :: "nat \<rightharpoonup> ScrapeSite"
  jobs :: "string \<rightharpoonup> ScrapeJob"
  authors :: "Author list"
  quotes :: "Quote list"
  scrape_errors :: "ScrapeError list"
  logged :: "log_line list"

subsection \<open>ScrapeJob methods\<close>

text \<open>
  \<^verbatim>\<open>self.save(update_fields=[...])\<close> writes the listed fields of the instance to its row
  and fails when no row has that primary key. The instance keeps the assignments made
  before the save, so each method returns the instance together with the store or the
  exception.
\<close>

definition mark_running :: "ScrapeJob \<Rightarrow> timestamp \<Rightarrow> db \<Rightarrow> ScrapeJob \<times> (exn + db)" where
  "mark_running self now st =
     (let self' = self\<lparr>status := RUNNING, started_at := Some now\<rparr>
      in (self',
          case jobs st (job_id self) of
            None \<Rightarrow> Inl (DatabaseError ''Save with update_fields did not affect any rows.'')
          | Some row \<Rightarrow>
              Inr (st\<lparr>jobs := (jobs st)(job_id self \<mapsto>
                     row\<lparr>status := status self', started_at := started_at self'\<rparr>)\<rparr>)))"

definition mark_finished :: "ScrapeJob \<Rightarrow> bool \<Rightarrow> timestamp \<Rightarrow> db \<Rightarrow> ScrapeJob \<times> (exn + db)" where
  "mark_finished self success now st =
     (let self1 = self\<lparr>finished_at := Some now\<rparr>;
          self' =
            (if \<not> success then self1\<lparr>status := FAILED\<rparr>
             else if errors_count self1 > 0 \<and> quotes_saved self1 > 0 then self1\<lparr>status := PARTIAL\<rparr>
             else if quotes_saved self1 > 0 then self1\<lparr>status := SUCCESS\<rparr>
             else self1\<lparr>status := FAILED\<rparr>)
      in (self',
          case jobs st (job_id self) of
            None \<Rightarrow> Inl (DatabaseError ''Save with update_fields did not affect any rows.'')
          | Some row \<Rightarrow>
              Inr (st\<lparr>jobs := (jobs st)(job_id self \<mapsto>
                     row\<lparr>status := status self', finished_at := finished_at self'\<rparr>)\<rparr>)))"

text \<open>
  \<^verbatim>\<open>increment_counters\<close> re-reads the row by primary key and adds the deltas to the row it
  read; the instance it is called on is not touched.
\<close>

definition increment_counters :: "ScrapeJob \<Rightarrow> int \<Rightarrow> int \<Rightarrow> int \<Rightarrow> db \<Rightarrow> exn + db" where
  "increment_counters self fetched saved errors st =
     (case jobs st (job_id self) of
        None \<Rightarrow> Inl (DoesNotExist ''ScrapeJob matching query does not exist.'')
      | Some job \<Rightarrow>
          Inr (st\<lparr>jobs := (jobs st)(job_id self \<mapsto>
                 job\<lparr>quotes_fetched := quotes_fetched job + fetched,
                     quotes_saved := quotes_saved job + saved,
                     errors_count := errors_count job + errors\<rparr>)\<rparr>))"

definition counters_le :: "ScrapeJob \<Rightarrow> ScrapeJob \<Rightarrow> bool" where
  "counters_le r r' =
     (quotes_fetched r \<le> quotes_fetched r' \<and> quotes_saved r \<le> quotes_saved r'
      \<and> errors_count r \<le> errors_count r')"

subsection \<open>Authors and quotes\<close>

definition fresh_author_id :: "db \<Rightarrow> nat" where
  "fresh_author_id st = Suc (fold max (map author_id (authors st)) 0)"

text \<open>\<^verbatim>\<open>Author.objects.get_or_create(name=name)\<close>: exact match on the name.\<close>

definition get_or_create_author :: "string \<Rightarrow> db \<Rightarrow> Author \<times> db" where
  "get_or_create_author name st =
     (case find (\<lambda>a. author_name a = name) (authors st) of
        Some a \<Rightarrow> (a, st)
      | None \<Rightarrow>
          (let a = \<lparr>author_id = fresh_author_id st, author_name = name\<rparr>
           in (a, st\<lparr>authors := authors st @ [a]\<rparr>)))"

definition hashes :: "db \<Rightarrow> string set" where
  "hashes st = set (map q_hash (quotes st))"

text \<open>
  \<^verbatim>\<open>Quote.save\<close>: the hash is computed when it is missing, then the row is inserted; the
  unique constraint on \<^verbatim>\<open>hash\<close> rejects a second row with the same value.
\<close>

definition Quote_save :: "Quote_obj \<Rightarrow> db \<Rightarrow> exn + Quote_obj \<times> db" where
  "Quote_save self st =
     (let self' =
            (if hash self = []
             then self\<lparr>hash := compute_quote_hash (Some (quote_text self))
                                (Some (case author self of None \<Rightarrow> [] | Some a \<Rightarrow> author_name a))\<rparr>
             else self)
      in if hash self' \<in> hashes st
         then Inl (IntegrityError ''UNIQUE constraint failed: scraper_api_quote.hash'')
         else Inr (self',
                   st\<lparr>quotes := quotes st @
                        [\<lparr>q_text = quote_text self', q_author = map_option author_id (author self'),
                          q_site = site self', q_source_url = source_url self',
                          q_hash = hash self', q_saved_by_job = saved_by_job self'\<rparr>]\<rparr>))"

text \<open>
  Rows committed by another writer on the same store. Its inserts meet the same unique
  constraint, so a row whose hash is already stored is dropped.
\<close>

definition concurrent_commit :: "Quote list \<Rightarrow> db \<Rightarrow> db" where
  "concurrent_commit rows st =
     fold (\<lambda>r s. if q_hash r \<in> hashes s then s else s\<lparr>quotes := quotes s @ [r]\<rparr>) rows st"

section \<open>The outside world of the worker (scraper\_api/tasks.py)\<close>

text \<open>
  A parsed page is what BeautifulSoup answers: the text of a node, its attributes, the
  nodes a selector matches below it, its \<^verbatim>\<open>.string\<close> and the anchors below it in document
  order. Every library call may raise.
\<close>

datatype tag = Tag
  (get_text: "exn + string")
  (tag_get: "string \<Rightarrow> string option")
  (select: "string \<Rightarrow> exn + tag list")
  (tag_string: "string option")
  (find_all_a: "tag list")

text \<open>
  The world fixes what the libraries and the clock answer during one run:
  \<^verbatim>\<open>requests.get\<close> followed by \<^verbatim>\<open>raise_for_status\<close> (the response text or the exception),
  the BeautifulSoup parse, \<^verbatim>\<open>urljoin\<close>, the path component of \<^verbatim>\<open>urlparse\<close>,
  \<^verbatim>\<open>timezone.now()\<close> at the start and at the end, and the quotes another writer commits
  between the existence check and the insert of candidate \<open>i\<close> on page \<open>page_index\<close>.
\<close>

record world =
  requests_get :: "string \<Rightarrow> exn + string"
  BeautifulSoup :: "string \<Rightarrow> exn + tag"
  urljoin :: "string \<Rightarrow> string \<Rightarrow> exn + string"
  urlparse_path :: "string \<Rightarrow> string"
  now_started :: timestamp
  now_finished :: timestamp
  other_writer :: "nat \<Rightarrow> nat \<Rightarrow> Quote list"

definition select_one :: "tag \<Rightarrow> string \<Rightarrow> exn + tag option" where
  "select_one t sel =
     (case select t sel of
        Inl e \<Rightarrow> Inl e
      | Inr [] \<Rightarrow> Inr None
      | Inr (x # xs) \<Rightarrow> Inr (Some x))"

text \<open>The local variables of \<^verbatim>\<open>scrape_site\<close>.\<close>

record locals =
  next_url :: "string option"
  saved :: int
  fetched :: int
  errors :: int
  pages_scraped :: "string list"

subsection \<open>One candidate\<close>

definition resolve_author :: "ScrapeSite \<Rightarrow> tag list \<Rightarrow> nat \<Rightarrow> tag \<Rightarrow> exn + string option" where
  "resolve_author cfg author_nodes i qnode =
     (if author_nodes \<noteq> [] \<and> i < length author_nodes
      then (case get_text (author_nodes ! i) of Inl e \<Rightarrow> Inl e | Inr a \<Rightarrow> Inr (Some a))
      else (case (if author_selector cfg \<noteq> [] then select_one qnode (author_selector cfg)
                  else Inr None) of
              Inl e \<Rightarrow> Inl e
            | Inr None \<Rightarrow> Inr None
            | Inr (Some possible) \<Rightarrow>
                (case get_text possible of Inl e \<Rightarrow> Inl e | Inr a \<Rightarrow> Inr (Some a))))"

text \<open>
  The body of the per-candidate \<^verbatim>\<open>try\<close>. \<open>Inr (created, st')\<close> is normal completion;
  \<open>Inl (ex, st')\<close> is an exception, with the writes of the atomic block rolled back and
  the other writer's commit kept.
\<close>

definition candidate_try ::
  "world \<Rightarrow> ScrapeSite \<Rightarrow> ScrapeJob \<Rightarrow> nat \<Rightarrow> string \<Rightarrow> tag list \<Rightarrow> nat \<Rightarrow> tag \<Rightarrow> db
     \<Rightarrow> exn \<times> db + bool \<times> db" where
  "candidate_try W cfg job page_index url author_nodes i qnode st =
     (case get_text qnode of
        Inl e \<Rightarrow> Inl (e, st)
      | Inr txt \<Rightarrow>
          (case resolve_author cfg author_nodes i qnode of
             Inl e \<Rightarrow> Inl (e, st)
           | Inr name \<Rightarrow>
               (let (auth, st1) =
                      (if truthy name
                       then (case get_or_create_author (or_empty name) st of (a, s) \<Rightarrow> (Some a, s))
                       else (None, st));
                    h = compute_quote_hash (Some txt) name
                in if h \<notin> hashes st1
                   then (case Quote_save
                                \<lparr>quote_text = txt, author = auth, site = site_id cfg,
                                 source_url = Some url, hash = h,
                                 saved_by_job = Some (job_id job)\<rparr>
                                (concurrent_commit (other_writer W page_index i) st1) of
                           Inl e \<Rightarrow> Inl (e, concurrent_commit (other_writer W page_index i) st)
                         | Inr (q, st2) \<Rightarrow> Inr (True, st2))
                   else Inr (False, st1))))"

definition process_candidate ::
  "world \<Rightarrow> ScrapeSite \<Rightarrow> ScrapeJob \<Rightarrow> nat \<Rightarrow> string \<Rightarrow> tag list \<Rightarrow> nat \<Rightarrow> tag
     \<Rightarrow> locals \<times> db \<Rightarrow> locals \<times> db" where
  "process_candidate W cfg job page_index url author_nodes i qnode ls =
     (case ls of (l, st) \<Rightarrow>
        (case candidate_try W cfg job page_index url author_nodes i qnode st of
           Inr (created, st') \<Rightarrow> (if created then l\<lparr>saved := saved l + 1\<rparr> else l, st')
         | Inl (ex, st') \<Rightarrow>
             (l\<lparr>errors := errors l + 1\<rparr>,
              st'\<lparr>scrape_errors := scrape_errors st' @
                     [\<lparr>err_job = job_id job, err_url = Some url, error_type = ''parse'',
                       message = str_exn ex\<rparr>],
                   logged := logged st' @ [Exception_parse url]\<rparr>)))"

fun candidates_loop ::
  "world \<Rightarrow> ScrapeSite \<Rightarrow> ScrapeJob \<Rightarrow> nat \<Rightarrow> string \<Rightarrow> tag list \<Rightarrow> nat \<Rightarrow> tag list
     \<Rightarrow> locals \<times> db \<Rightarrow> locals \<times> db" where
  "candidates_loop W cfg job page_index url author_nodes i [] ls = ls"
| "candidates_loop W cfg job page_index url author_nodes i (qnode # rest) ls =
     candidates_loop W cfg job page_index url author_nodes (Suc i) rest
       (process_candidate W cfg job page_index url author_nodes i qnode ls)"

subsection \<open>Pagination\<close>

text \<open>Python's \<^verbatim>\<open>a or b\<close> on optional strings.\<close>

definition py_or :: "string option \<Rightarrow> string option \<Rightarrow> string option" where
  "py_or a b = (if truthy a then a else b)"

text \<open>
  \<^verbatim>\<open>soup.find("a", string=lambda s: s and s.lower().strip() in ("next", U+203A, U+00BB))\<close>.
  U+203A lies outside the code points of the model, so no modelled string equals it.
\<close>

definition next_link_text :: "string option \<Rightarrow> bool" where
  "next_link_text s =
     (truthy s \<and> strip (lower (or_empty s)) \<in> set [''next'', [char_of (187 :: nat)]])"

definition decide_next :: "world \<Rightarrow> ScrapeSite \<Rightarrow> tag \<Rightarrow> exn + string option" where
  "decide_next W cfg soup =
     (if pagination_selector cfg \<noteq> []
      then (case select_one soup (pagination_selector cfg) of
              Inl e \<Rightarrow> Inl e
            | Inr None \<Rightarrow> Inr None
            | Inr (Some nxt) \<Rightarrow>
                (let href = py_or (tag_get nxt ''href'') (tag_get nxt ''data-href'')
                 in if truthy href
                    then (case urljoin W (base_url cfg) (or_empty href) of
                            Inl e \<Rightarrow> Inl e
                          | Inr u \<Rightarrow> Inr (Some u))
                    else Inr None))
      else (case select_one soup ''a[rel=next]'' of
              Inl e \<Rightarrow> Inl e
            | Inr r \<Rightarrow>
                (case (case r of
                         Some t \<Rightarrow> Some t
                       | None \<Rightarrow> find (\<lambda>a. next_link_text (tag_string a)) (find_all_a soup)) of
                   None \<Rightarrow> Inr None
                 | Some nxt \<Rightarrow>
                     if truthy (tag_get nxt ''href'')
                     then (case urljoin W (base_url cfg) (or_empty (tag_get nxt ''href'')) of
                             Inl e \<Rightarrow> Inl e
                           | Inr u \<Rightarrow> Inr (Some u))
                     else Inr None)))"

text \<open>
  Lines 140 to 143: \<^verbatim>\<open>if next_url and urlparse(next_url).path == urlparse(next_url).path: pass\<close>.
\<close>

definition same_page_guard :: "world \<Rightarrow> string option \<Rightarrow> string option" where
  "same_page_guard W nu =
     (if truthy nu \<and> urlparse_path W (or_empty nu) = urlparse_path W (or_empty nu)
      then nu else nu)"

text \<open>The page loop with the guard removed keeps the discovered target as it is.\<close>

definition no_guard :: "world \<Rightarrow> string option \<Rightarrow> string option" where
  "no_guard W nu = nu"

subsection \<open>One page\<close>

datatype step =
    Continue locals db
  | Break locals db
  | Raise exn locals db

definition scrape_page ::
  "(world \<Rightarrow> string option \<Rightarrow> string option) \<Rightarrow> world \<Rightarrow> ScrapeSite \<Rightarrow> ScrapeJob \<Rightarrow> nat
     \<Rightarrow> locals \<Rightarrow> db \<Rightarrow> step" where
  "scrape_page guard W cfg job page_index l st =
     (if \<not> truthy (next_url l) then Break l st
      else
        (let url = or_empty (next_url l);
             st0 = st\<lparr>logged := logged st @ [Info_fetching (job_id job) url]\<rparr>
         in case requests_get W url of
              Inl e \<Rightarrow>
                Break (l\<lparr>errors := errors l + 1\<rparr>)
                      (st0\<lparr>scrape_errors := scrape_errors st0 @
                              [\<lparr>err_job = job_id job, err_url = Some url,
                                error_type = ''network'', message = str_exn e\<rparr>]\<rparr>)
            | Inr resp \<Rightarrow>
                (let l1 = l\<lparr>fetched := fetched l + 1, pages_scraped := pages_scraped l @ [url]\<rparr>
                 in case BeautifulSoup W resp of
                      Inl e \<Rightarrow> Raise e l1 st0
                    | Inr soup \<Rightarrow>
                        (case select soup (quote_selector cfg) of
                           Inl e \<Rightarrow> Raise e l1 st0
                         | Inr quote_nodes \<Rightarrow>
                             (case (if author_selector cfg \<noteq> []
                                    then select soup (author_selector cfg) else Inr []) of
                                Inl e \<Rightarrow> Raise e l1 st0
                              | Inr author_nodes \<Rightarrow>
                                  (case candidates_loop W cfg job page_index url author_nodes 0
                                          quote_nodes (l1, st0) of
                                     (l2, st2) \<Rightarrow>
                                       (case increment_counters job (fetched l2) (saved l2)
                                               (errors l2) st2 of
                                          Inl e \<Rightarrow> Raise e l2 st2
                                        | Inr st3 \<Rightarrow>
                                            (let l3 = l2\<lparr>fetched := 0, saved := 0, errors := 0,
                                                        next_url := None\<rparr>
                                             in case decide_next W cfg soup of
                                                  Inl e \<Rightarrow> Raise e l3 st3
                                                | Inr nu \<Rightarrow>
                                                    Continue (l3\<lparr>next_url := guard W nu\<rparr>)
                                                      st3))))))))"

fun page_loop ::
  "(world \<Rightarrow> string option \<Rightarrow> string option) \<Rightarrow> world \<Rightarrow> ScrapeSite \<Rightarrow> ScrapeJob \<Rightarrow> nat
     \<Rightarrow> nat \<Rightarrow> locals \<Rightarrow> db \<Rightarrow> exn \<times> locals \<times> db + locals \<times> db" where
  "page_loop guard W cfg job page_index 0 l st = Inr (l, st)"
| "page_loop guard W cfg job page_index (Suc n) l st =
     (case scrape_page guard W cfg job page_index l st of
        Break l' st' \<Rightarrow> Inr (l', st')
      | Raise e l' st' \<Rightarrow> Inl (e, l', st')
      | Continue l' st' \<Rightarrow> page_loop guard W cfg job (Suc page_index) n l' st')"

subsection \<open>The task\<close>

text \<open>
  \<^verbatim>\<open>ScrapeJob.objects.select_related("site").get(pk=job_id)\<close>: the instance carries the
  primary key it was looked up by, and its site is the row the foreign key points to.
\<close>

definition load_job :: "db \<Rightarrow> string \<Rightarrow> exn + ScrapeJob \<times> ScrapeSite" where
  "load_job st pk =
     (case jobs st pk of
        None \<Rightarrow> Inl (DoesNotExist ''ScrapeJob matching query does not exist.'')
      | Some job \<Rightarrow>
          (case sites st (job_site job) of
             None \<Rightarrow> Inl (DoesNotExist ''ScrapeJob matching query does not exist.'')
           | Some cfg \<Rightarrow> Inr (job\<lparr>job_id := pk\<rparr>, cfg\<lparr>site_id := job_site job\<rparr>)))"

definition locals0 :: locals where
  "locals0 = \<lparr>next_url = None, saved = 0, fetched = 0, errors = 0, pages_scraped = []\<rparr>"

text \<open>
  The body of the outer \<^verbatim>\<open>try\<close> (lines 59 to 150). \<open>Inl (e, l, st)\<close>: exception \<open>e\<close> left
  the body with the locals \<open>l\<close> and the store \<open>st\<close>.
\<close>

definition scrape_try ::
  "(world \<Rightarrow> string option \<Rightarrow> string option) \<Rightarrow> world \<Rightarrow> ScrapeSite \<Rightarrow> ScrapeJob \<Rightarrow> db
     \<Rightarrow> exn \<times> locals \<times> db + db" where
  "scrape_try guard W cfg job st =
     (case urljoin W (base_url cfg) (or_default (start_path cfg) ''/'') of
        Inl e \<Rightarrow> Inl (e, locals0, st)
      | Inr start_url \<Rightarrow>
          (case page_loop guard W cfg job 0 (max_pages cfg)
                  (locals0\<lparr>next_url := Some start_url\<rparr>) st of
             Inl x \<Rightarrow> Inl x
           | Inr (l, st2) \<Rightarrow>
               (case increment_counters job (fetched l) (saved l) (errors l) st2 of
                  Inl e \<Rightarrow> Inl (e, l, st2)
                | Inr st3 \<Rightarrow>
                    (case mark_finished job True (now_finished W) st3 of
                       (job', Inl e) \<Rightarrow> Inl (e, l, st3)
                     | (job', Inr st4) \<Rightarrow>
                         Inr (st4\<lparr>logged := logged st4 @ [Info_finished (job_id job)]\<rparr>)))))"

text \<open>The \<^verbatim>\<open>except Exception as fatal\<close> block (lines 151 to 157).\<close>

definition fatal_handler :: "world \<Rightarrow> ScrapeJob \<Rightarrow> exn \<Rightarrow> locals \<Rightarrow> db \<Rightarrow> (exn + string) \<times> db" where
  "fatal_handler W job fatal l st =
     (let st1 = st\<lparr>scrape_errors := scrape_errors st @
                    [\<lparr>err_job = job_id job, err_url = None, error_type = ''fatal'',
                      message = str_exn fatal\<rparr>]\<rparr>
      in case increment_counters job (fetched l) (saved l) 1 st1 of
           Inl e \<Rightarrow> (Inl e, st1)
         | Inr st2 \<Rightarrow>
             (case mark_finished job False (now_finished W) st2 of
                (job', Inl e) \<Rightarrow> (Inl e, st2)
              | (job', Inr st3) \<Rightarrow>
                  (Inl fatal, st3\<lparr>logged := logged st3 @ [Exception_fatal (job_id job)]\<rparr>)))"

text \<open>Lines 46 to 50: log, load the job with its site, mark it running.\<close>

definition scrape_begin :: "world \<Rightarrow> string \<Rightarrow> db \<Rightarrow> exn \<times> db + ScrapeJob \<times> ScrapeSite \<times> db" where
  "scrape_begin W pk st =
     (let st0 = st\<lparr>logged := logged st @ [Info_start pk]\<rparr>
      in case load_job st0 pk of
           Inl e \<Rightarrow> Inl (e, st0)
         | Inr (job0, cfg) \<Rightarrow>
             (case mark_running job0 (now_started W) st0 of
                (job, Inl e) \<Rightarrow> Inl (e, st0)
              | (job, Inr st1) \<Rightarrow> Inr (job, cfg, st1)))"

definition scrape_site_with ::
  "(world \<Rightarrow> string option \<Rightarrow> string option) \<Rightarrow> world \<Rightarrow> string \<Rightarrow> db \<Rightarrow> (exn + string) \<times> db" where
  "scrape_site_with guard W pk st =
     (case scrape_begin W pk st of
        Inl (e, st0) \<Rightarrow> (Inl e, st0)
      | Inr (job, cfg, st1) \<Rightarrow>
          (case scrape_try guard W cfg job st1 of
             Inr st' \<Rightarrow> (Inr ''done'', st')
           | Inl (fatal, l, st') \<Rightarrow> fatal_handler W job fatal l st'))"

definition scrape_site :: "world \<Rightarrow> string \<Rightarrow> db \<Rightarrow> (exn + string) \<times> db" where
  "scrape_site = scrape_site_with same_page_guard"

definition scrape_site_unguarded :: "world \<Rightarrow> string \<Rightarrow> db \<Rightarrow> (exn + string) \<times> db" where
  "scrape_site_unguarded = scrape_site_with no_guard"

section \<open>QuoteSerializer.create (scraper\_api/serializers.py)\<close>

record quote_validated_data =
  vd_text :: string
  vd_author :: "Author option"
  vd_author_name :: "string option"
  vd_site :: ScrapeSite
  vd_source_url :: "string option"
  vd_saved_by_job :: "string option"

text \<open>
  The \<^verbatim>\<open>hash\<close> field is read-only in the serializer, so the instance is built with the
  field's default, the empty string. The author is created before the site check and
  outside any transaction.
\<close>

definition QuoteSerializer_create :: "quote_validated_data \<Rightarrow> db \<Rightarrow> (exn + Quote_obj) \<times> db" where
  "QuoteSerializer_create vd st =
     (let name = strip (or_empty (vd_author_name vd));
          (auth, st1) =
            (if vd_author vd = None \<and> name \<noteq> []
             then (case get_or_create_author name st of (a, s) \<Rightarrow> (Some a, s))
             else (vd_author vd, st))
      in if \<not> active (vd_site vd)
         then (Inl (ValidationError ''Specified site is not active for scraping.''), st1)
         else (case Quote_save
                      \<lparr>quote_text = vd_text vd, author = auth, site = site_id (vd_site vd),
                       source_url = vd_source_url vd, hash = [],
                       saved_by_job = vd_saved_by_job vd\<rparr> st1 of
                 Inl e \<Rightarrow> (Inl e, st1)
               | Inr (q, st2) \<Rightarrow> (Inr q, st2)))"

definition hex64 :: "string \<Rightarrow> bool" where
  "hex64 h = (length h = 64 \<and> list_all (\<lambda>c. c \<in> set hexchars) h)"

section \<open>Example data\<close>

definition job_A :: ScrapeJob where
  "job_A = \<lparr>job_id = ''job-a'', job_site = 1, status = PENDING, started_at = None,
            finished_at = None, quotes_fetched = 0, quotes_saved = 0, errors_count = 0\<rparr>"

definition site_A :: ScrapeSite where
  "site_A = \<lparr>site_id = 1, base_url = ''http://quotes.example'', start_path = ''/'',
             quote_selector = ''.quote'', author_selector = ''.author'',
             pagination_selector = ''li.next a'', max_pages = 2, rate_limit_ms = 500,
             active = True\<rparr>"

definition db_A :: db where
  "db_A = \<lparr>sites = [1 \<mapsto> site_A], jobs = [''job-a'' \<mapsto> job_A], authors = [], quotes = [],
           scrape_errors = [], logged = []\<rparr>"

text \<open>A page without content, and a world in which every fetch times out.\<close>

definition tag_empty :: tag where
  "tag_empty = Tag (Inr []) (\<lambda>k. None) (\<lambda>sel. Inr []) None []"

definition world_down :: world where
  "world_down =
     \<lparr>requests_get = (\<lambda>u. Inl (RequestException ''Read timed out.'')),
      BeautifulSoup = (\<lambda>r. Inr tag_empty),
      urljoin = (\<lambda>b h. Inr (b @ h)),
      urlparse_path = (\<lambda>u. u),
      now_started = 10, now_finished = 20,
      other_writer = (\<lambda>p i. [])\<rparr>"

text \<open>A world whose pages are fetched but cannot be parsed.\<close>

definition world_broken :: world where
  "world_broken =
     world_down\<lparr>requests_get := (\<lambda>u. Inr ''<html>''),
                BeautifulSoup := (\<lambda>r. Inl (OtherError ''Document is empty''))\<rparr>"

text \<open>A quote node without an author inside it, and an author node.\<close>

definition node_hello :: tag where
  "node_hello = Tag (Inr ''Hello  World'') (\<lambda>k. None) (\<lambda>sel. Inr []) None []"

definition node_bob :: tag where
  "node_bob = Tag (Inr ''Bob'') (\<lambda>k. None) (\<lambda>sel. Inr []) (Some ''Bob'') []"

text \<open>A world whose only page carries a next link that resolves to the page itself.\<close>

definition link_self :: tag where
  "link_self =
     Tag (Inr ''Next'') (\<lambda>k. if k = ''href'' then Some ''/'' else None) (\<lambda>sel. Inr [])
       (Some ''Next'') []"

definition soup_loop :: tag where
  "soup_loop =
     Tag (Inr []) (\<lambda>k. None) (\<lambda>sel. if sel = ''li.next a'' then Inr [link_self] else Inr [])
       None [link_self]"

definition world_loop :: world where
  "world_loop =
     world_down\<lparr>requests_get := (\<lambda>u. Inr ''<html>''), BeautifulSoup := (\<lambda>r. Inr soup_loop)\<rparr>"

text \<open>
  A world with one page holding one quote, where another writer commits a quote with the
  same hash between the existence check and the insert of that candidate.
\<close>

definition racing_row :: Quote where
  "racing_row =
     \<lparr>q_text = ''Hello World'', q_author = None, q_site = 1, q_source_url = None,
      q_hash = compute_quote_hash (Some ''Hello  World'') None, q_saved_by_job = None\<rparr>"

definition soup_race :: tag where
  "soup_race =
     Tag (Inr []) (\<lambda>k. None) (\<lambda>sel. if sel = ''.quote'' then Inr [node_hello] else Inr [])
       None []"

definition world_race :: world where
  "world_race =
     world_down\<lparr>requests_get := (\<lambda>u. Inr ''<html>''), BeautifulSoup := (\<lambda>r. Inr soup_race),
                other_writer := (\<lambda>p i. if p = 0 \<and> i = 0 then [racing_row] else [])\<rparr>"

text \<open>Validated data of a quote posted with an inline author name.\<close>

definition vd_A :: quote_validated_data where
  "vd_A = \<lparr>vd_text = ''Hello'', vd_author = None, vd_author_name = Some '' Bob '',
           vd_site = site_A, vd_source_url = None, vd_saved_by_job = None\<rparr>"

text \<open>The same single page with one quote, and nobody else writing.\<close>

definition world_once :: world where
  "world_once =
     world_down\<lparr>requests_get := (\<lambda>u. Inr ''<html>''), BeautifulSoup := (\<lambda>r. Inr soup_race)\<rparr>"

section \<open>A store that may refuse an error row\<close>

text \<open>
  \<^verbatim>\<open>ScrapeError.objects.create\<close> is a write like any other and may raise: the connection
  drops, or the row breaks a declared constraint (\<^verbatim>\<open>url = URLField(max_length=1000)\<close>, which
  PostgreSQL enforces). The task calls it in the \<^verbatim>\<open>except\<close> clause of the fetch (line 72), in
  the \<^verbatim>\<open>except\<close> clause of the per-candidate guard (line 115) and in the fatal handler
  (line 153), each time outside any inner \<^verbatim>\<open>try\<close>. The functions of the previous section take
  the insert as succeeding. The functions below are the same code with the outcome of the
  insert taken from a parameter \<open>ins\<close>: \<open>ins row st\<close> is the store with the row added, or the
  exception raised.
\<close>

type_synonym error_insert = "ScrapeError \<Rightarrow> db \<Rightarrow> exn + db"

text \<open>The insert that always succeeds.\<close>

definition ScrapeError_create :: error_insert where
  "ScrapeError_create row st = Inr (st\<lparr>scrape_errors := scrape_errors st @ [row]\<rparr>)"

text \<open>The insert on a store that enforces the length of the \<^verbatim>\<open>url\<close> column.\<close>

definition ScrapeError_create_strict :: error_insert where
  "ScrapeError_create_strict row st =
     (if 1000 < length (or_empty (err_url row))
      then Inl (DatabaseError ''value too long for type character varying(1000)'')
      else Inr (st\<lparr>scrape_errors := scrape_errors st @ [row]\<rparr>))"

text \<open>
  Lines 113 to 116: \<^verbatim>\<open>errors += 1\<close>, then the insert, then the log line. An exception of the
  insert leaves the guard with the error already counted in the local.
\<close>

definition process_candidate_ins ::
  "error_insert \<Rightarrow> world \<Rightarrow> ScrapeSite \<Rightarrow> ScrapeJob \<Rightarrow> nat \<Rightarrow> string \<Rightarrow> tag list \<Rightarrow> nat \<Rightarrow> tag
     \<Rightarrow> locals \<times> db \<Rightarrow> exn \<times> locals \<times> db + locals \<times> db" where
  "process_candidate_ins ins W cfg job page_index url author_nodes i qnode ls =
     (case ls of (l, st) \<Rightarrow>
        (case candidate_try W cfg job page_index url author_nodes i qnode st of
           Inr (created, st') \<Rightarrow> Inr (if created then l\<lparr>saved := saved l + 1\<rparr> else l, st')
         | Inl (ex, st') \<Rightarrow>
             (case ins \<lparr>err_job = job_id job, err_url = Some url, error_type = ''parse'',
                        message = str_exn ex\<rparr> st' of
                Inl e \<Rightarrow> Inl (e, l\<lparr>errors := errors l + 1\<rparr>, st')
              | Inr st'' \<Rightarrow>
                  Inr (l\<lparr>errors := errors l + 1\<rparr>,
                       st''\<lparr>logged := logged st'' @ [Exception_parse url]\<rparr>))))"

fun candidates_loop_ins ::
  "error_insert \<Rightarrow> world \<Rightarrow> ScrapeSite \<Rightarrow> ScrapeJob \<Rightarrow> nat \<Rightarrow> string \<Rightarrow> tag list \<Rightarrow> nat
     \<Rightarrow> tag list \<Rightarrow> locals \<times> db \<Rightarrow> exn \<times> locals \<times> db + locals \<times> db" where
  "candidates_loop_ins ins W cfg job page_index url author_nodes i [] ls = Inr ls"
| "candidates_loop_ins ins W cfg job page_index url author_nodes i (qnode # rest) ls =
     (case process_candidate_ins ins W cfg job page_index url author_nodes i qnode ls of
        Inl x \<Rightarrow> Inl x
      | Inr ls' \<Rightarrow> candidates_loop_ins ins W cfg job page_index url author_nodes (Suc i) rest ls')"

definition scrape_page_ins ::
  "error_insert \<Rightarrow> (world \<Rightarrow> string option \<Rightarrow> string option) \<Rightarrow> world \<Rightarrow> ScrapeSite
     \<Rightarrow> ScrapeJob \<Rightarrow> nat \<Rightarrow> locals \<Rightarrow> db \<Rightarrow> step" where
  "scrape_page_ins ins guard W cfg job page_index l st =
     (if \<not> truthy (next_url l) then Break l st
      else
        (let url = or_empty (next_url l);
             st0 = st\<lparr>logged := logged st @ [Info_fetching (job_id job) url]\<rparr>
         in case requests_get W url of
              Inl e \<Rightarrow>
                (case ins \<lparr>err_job = job_id job, err_url = Some url,
                           error_type = ''network'', message = str_exn e\<rparr> st0 of
                   Inl e' \<Rightarrow> Raise e' (l\<lparr>errors := errors l + 1\<rparr>) st0
                 | Inr st1 \<Rightarrow> Break (l\<lparr>errors := errors l + 1\<rparr>) st1)
            | Inr resp \<Rightarrow>
                (let l1 = l\<lparr>fetched := fetched l + 1, pages_scraped := pages_scraped l @ [url]\<rparr>
                 in case BeautifulSoup W resp of
                      Inl e \<Rightarrow> Raise e l1 st0
                    | Inr soup \<Rightarrow>
                        (case select soup (quote_selector cfg) of
                           Inl e \<Rightarrow> Raise e l1 st0
                         | Inr quote_nodes \<Rightarrow>
                             (case (if author_selector cfg \<noteq> []
                                    then select soup (author_selector cfg) else Inr []) of
                                Inl e \<Rightarrow> Raise e l1 st0
                              | Inr author_nodes \<Rightarrow>
                                  (case candidates_loop_ins ins W cfg job page_index url
                                          author_nodes 0 quote_nodes (l1, st0) of
                                     Inl (e, l2, st2) \<Rightarrow> Raise e l2 st2
                                   | Inr (l2, st2) \<Rightarrow>
                                       (case increment_counters job (fetched l2) (saved l2)
                                               (errors l2) st2 of
                                          Inl e \<Rightarrow> Raise e l2 st2
                                        | Inr st3 \<Rightarrow>
                                            (let l3 = l2\<lparr>fetched := 0, saved := 0, errors := 0,
                                                        next_url := None\<rparr>
                                             in case decide_next W cfg soup of
                                                  Inl e \<Rightarrow> Raise e l3 st3
                                                | Inr nu \<Rightarrow>
                                                    Continue (l3\<lparr>next_url := guard W nu\<rparr>)
                                                      st3))))))))"

fun page_loop_ins ::
  "error_insert \<Rightarrow> (world \<Rightarrow> string option \<Rightarrow> string option) \<Rightarrow> world \<Rightarrow> ScrapeSite
     \<Rightarrow> ScrapeJob \<Rightarrow> nat \<Rightarrow> nat \<Rightarrow> locals \<Rightarrow> db \<Rightarrow> exn \<times> locals \<times> db + locals \<times> db" where
  "page_loop_ins ins guard W cfg job page_index 0 l st = Inr (l, st)"
| "page_loop_ins ins guard W cfg job page_index (Suc n) l st =
     (case scrape_page_ins ins guard W cfg job page_index l st of
        Break l' st' \<Rightarrow> Inr (l', st')
      | Raise e l' st' \<Rightarrow> Inl (e, l', st')
      | Continue l' st' \<Rightarrow> page_loop_ins ins guard W cfg job (Suc page_index) n l' st')"

definition scrape_try_ins ::
  "error_insert \<Rightarrow> (world \<Rightarrow> string option \<Rightarrow> string option) \<Rightarrow> world \<Rightarrow> ScrapeSite
     \<Rightarrow> ScrapeJob \<Rightarrow> db \<Rightarrow> exn \<times> locals \<times> db + db" where
  "scrape_try_ins ins guard W cfg job st =
     (case urljoin W (base_url cfg) (or_default (start_path cfg) ''/'') of
        Inl e \<Rightarrow> Inl (e, locals0, st)
      | Inr start_url \<Rightarrow>
          (case page_loop_ins ins guard W cfg job 0 (max_pages cfg)
                  (locals0\<lparr>next_url := Some start_url\<rparr>) st of
             Inl x \<Rightarrow> Inl x
           | Inr (l, st2) \<Rightarrow>
               (case increment_counters job (fetched l) (saved l) (errors l) st2 of
                  Inl e \<Rightarrow> Inl (e, l, st2)
                | Inr st3 \<Rightarrow>
                    (case mark_finished job True (now_finished W) st3 of
                       (job', Inl e) \<Rightarrow> Inl (e, l, st3)
                     | (job', Inr st4) \<Rightarrow>
                         Inr (st4\<lparr>logged := logged st4 @ [Info_finished (job_id job)]\<rparr>)))))"

text \<open>
  Lines 151 to 157. An exception of the insert at line 153 leaves the handler before the
  counters are flushed.
\<close>

definition fatal_handler_ins ::
  "error_insert \<Rightarrow> world \<Rightarrow> ScrapeJob \<Rightarrow> exn \<Rightarrow> locals \<Rightarrow> db \<Rightarrow> (exn + string) \<times> db" where
  "fatal_handler_ins ins W job fatal l st =
     (case ins \<lparr>err_job = job_id job, err_url = None, error_type = ''fatal'',
                message = str_exn fatal\<rparr> st of
        Inl e \<Rightarrow> (Inl e, st)
      | Inr st1 \<Rightarrow>
          (case increment_counters job (fetched l) (saved l) 1 st1 of
             Inl e \<Rightarrow> (Inl e, st1)
           | Inr st2 \<Rightarrow>
               (case mark_finished job False (now_finished W) st2 of
                  (job', Inl e) \<Rightarrow> (Inl e, st2)
                | (job', Inr st3) \<Rightarrow>
                    (Inl fatal, st3\<lparr>logged := logged st3 @ [Exception_fatal (job_id job)]\<rparr>))))"

definition scrape_site_ins :: "error_insert \<Rightarrow> world \<Rightarrow> string \<Rightarrow> db \<Rightarrow> (exn + string) \<times> db" where
  "scrape_site_ins ins W pk st =
     (case scrape_begin W pk st of
        Inl (e, st0) \<Rightarrow> (Inl e, st0)
      | Inr (job, cfg, st1) \<Rightarrow>
          (case scrape_try_ins ins same_page_guard W cfg job st1 of
             Inr st' \<Rightarrow> (Inr ''done'', st')
           | Inl (fatal, l, st') \<Rightarrow> fatal_handler_ins ins W job fatal l st'))"

text \<open>
  What the fatal handler is entered with: the exception and the pending deltas
  (fetched, saved, errors) of the locals, when the body of the \<^verbatim>\<open>try\<close> raised.
\<close>

definition pending :: "exn \<times> locals \<times> db + db \<Rightarrow> (exn \<times> int \<times> int \<times> int) option" where
  "pending r = (case r of Inl (e, l, st) \<Rightarrow> Some (e, fetched l, saved l, errors l) | Inr st \<Rightarrow> None)"

text \<open>
  A site whose first page holds one quote and a next link with a target of more than a
  thousand characters, which the server refuses.
\<close>

definition link_long :: tag where
  "link_long =
     Tag (Inr ''Next'')
       (\<lambda>k. if k = ''href'' then Some (''/'' @ replicate 1000 (CHR ''a'')) else None)
       (\<lambda>sel. Inr []) (Some ''Next'') []"

definition soup_long :: tag where
  "soup_long =
     Tag (Inr [])
       (\<lambda>k. None)
       (\<lambda>sel. if sel = ''.quote'' then Inr [node_hello]
              else if sel = ''li.next a'' then Inr [link_long] else Inr [])
       None [link_long]"

definition world_long :: world where
  "world_long =
     world_down\<lparr>requests_get :=
                  (\<lambda>u. if 1000 < length u
                        then Inl (RequestException ''414 Client Error: Request-URI Too Long'')
                        else Inr ''<html>''),
                BeautifulSoup := (\<lambda>r. Inr soup_long)\<rparr>"

section \<open>compute\_quote\_hash on Python strings\<close>

text \<open>
  A Python \<^verbatim>\<open>str\<close> is a sequence of code points, each below 0x110000, surrogates
  (U+D800..U+DFFF) included. The functions of this section are \<^verbatim>\<open>compute_quote_hash\<close> and
  the string methods it calls on such sequences; the functions of the first section are
  their restriction to code points below 256, which is what the crawl model computes
  with.
\<close>

type_synonym str = "nat list"

text \<open>
  \<^verbatim>\<open>str.strip()\<close> and \<^verbatim>\<open>str.split()\<close> without argument test characters with
  \<^verbatim>\<open>Py_UNICODE_ISSPACE\<close>: U+0009..U+000D, U+001C..U+0020, U+0085, U+00A0, U+1680,
  U+2000..U+200A, U+2028, U+2029, U+202F, U+205F and U+3000.
\<close>

definition unicode_isspace :: "nat \<Rightarrow> bool" where
  "unicode_isspace c =
     ((0x9 \<le> c \<and> c \<le> 0xD) \<or> (0x1C \<le> c \<and> c \<le> 0x20) \<or> c = 0x85 \<or> c = 0xA0 \<or> c = 0x1680
      \<or> (0x2000 \<le> c \<and> c \<le> 0x200A) \<or> c = 0x2028 \<or> c = 0x2029 \<or> c = 0x202F \<or> c = 0x205F
      \<or> c = 0x3000)"

definition str_strip :: "str \<Rightarrow> str" where
  "str_strip s = rev (dropWhile unicode_isspace (rev (dropWhile unicode_isspace s)))"

function str_split :: "str \<Rightarrow> str list" where
  "str_split s =
     (case dropWhile unicode_isspace s of
        [] \<Rightarrow> []
      | c # cs \<Rightarrow> takeWhile (\<lambda>x. \<not> unicode_isspace x) (c # cs)
                   # str_split (dropWhile (\<lambda>x. \<not> unicode_isspace x) (c # cs)))"
  by pat_completeness auto
termination
proof (relation "measure length")
  show "wf (measure length)" by simp
next
  fix s :: str and c cs
  assume d: "dropWhile unicode_isspace s = c # cs"
  from d have "\<not> unicode_isspace c"
    by (metis hd_dropWhile list.sel(1) list.distinct(1))
  then have "length (dropWhile (\<lambda>x. \<not> unicode_isspace x) (c # cs)) \<le> length cs"
    by (simp add: length_dropWhile_le)
  moreover have "length (c # cs) \<le> length s"
    using d length_dropWhile_le [of unicode_isspace s] by simp
  ultimately show "(dropWhile (\<lambda>x. \<not> unicode_isspace x) (c # cs), s) \<in> measure length"
    by simp
qed

declare str_split.simps [simp del]

fun str_join :: "str \<Rightarrow> str list \<Rightarrow> str" where
  "str_join sep [] = []"
| "str_join sep [w] = w"
| "str_join sep (w # v # ws) = w @ sep @ str_join sep (v # ws)"

text \<open>
  \<^verbatim>\<open>str.lower()\<close> reads the Unicode character database of the interpreter, which is not
  part of the repository: the full lowercase mapping of a character (one or more
  characters, \<^verbatim>\<open>_PyUnicode_ToLowerFull\<close>) and the properties Cased and Case\_Ignorable. They
  are parameters here.
\<close>

record ucd =
  tolower_full :: "nat \<Rightarrow> str"
  is_cased :: "nat \<Rightarrow> bool"
  is_case_ignorable :: "nat \<Rightarrow> bool"

text \<open>
  CPython's \<^verbatim>\<open>do_lower\<close> maps every character by the table, except the capital sigma
  U+03A3: \<^verbatim>\<open>handle_capital_sigma\<close> gives the final form U+03C2 when the sigma is preceded by
  a cased character, case-ignorable characters skipped, and not followed by one, and
  U+03C3 otherwise. \<open>before\<close> holds the characters to the left, nearest first.
\<close>

definition final_sigma :: "ucd \<Rightarrow> str \<Rightarrow> str \<Rightarrow> bool" where
  "final_sigma U before after =
     ((case dropWhile (is_case_ignorable U) before of [] \<Rightarrow> False | b # bs \<Rightarrow> is_cased U b)
      \<and> (case dropWhile (is_case_ignorable U) after of [] \<Rightarrow> True | a # as \<Rightarrow> \<not> is_cased U a))"

definition lower_ucs4 :: "ucd \<Rightarrow> str \<Rightarrow> nat \<Rightarrow> str \<Rightarrow> str" where
  "lower_ucs4 U before c after =
     (if c = 0x3A3 then [if final_sigma U before after then 0x3C2 else 0x3C3]
      else tolower_full U c)"

fun do_lower :: "ucd \<Rightarrow> str \<Rightarrow> str \<Rightarrow> str" where
  "do_lower U before [] = []"
| "do_lower U before (c # after) = lower_ucs4 U before c after @ do_lower U (c # before) after"

definition str_lower :: "ucd \<Rightarrow> str \<Rightarrow> str" where
  "str_lower U s = do_lower U [] s"

text \<open>
  \<^verbatim>\<open>str.encode("utf-8")\<close>: one to four bytes per code point; a surrogate raises
  \<^verbatim>\<open>UnicodeEncodeError\<close>.
\<close>

definition surrogate :: "nat \<Rightarrow> bool" where
  "surrogate c = (0xD800 \<le> c \<and> c \<le> 0xDFFF)"

definition utf8_cp :: "nat \<Rightarrow> byte list" where
  "utf8_cp c =
     (if c < 0x80 then [of_nat c]
      else if c < 0x800 then [of_nat (0xC0 + c div 0x40), of_nat (0x80 + c mod 0x40)]
      else if c < 0x10000
      then [of_nat (0xE0 + c div 0x1000), of_nat (0x80 + c div 0x40 mod 0x40),
            of_nat (0x80 + c mod 0x40)]
      else [of_nat (0xF0 + c div 0x40000), of_nat (0x80 + c div 0x1000 mod 0x40),
            of_nat (0x80 + c div 0x40 mod 0x40), of_nat (0x80 + c mod 0x40)])"

definition str_encode_utf8 :: "str \<Rightarrow> exn + byte list" where
  "str_encode_utf8 s =
     (if list_ex surrogate s
      then Inl (OtherError ''UnicodeEncodeError: surrogates not allowed'')
      else Inr (concat (map utf8_cp s)))"

text \<open>Lines 14 to 17 of \<^verbatim>\<open>scraper_api/models.py\<close>; \<open>[0x20]\<close> is \<^verbatim>\<open>" "\<close> and \<open>[0x7C]\<close> is \<^verbatim>\<open>"|"\<close>.\<close>

definition norm_text_str :: "ucd \<Rightarrow> str option \<Rightarrow> str" where
  "norm_text_str U text =
     str_lower U (str_join [0x20] (str_split (str_strip (case text of None \<Rightarrow> [] | Some s \<Rightarrow> s))))"

definition norm_author_str :: "ucd \<Rightarrow> str option \<Rightarrow> str" where
  "norm_author_str U name =
     str_lower U (str_strip (case name of None \<Rightarrow> [] | Some s \<Rightarrow> s))"

definition payload_str :: "ucd \<Rightarrow> str option \<Rightarrow> str option \<Rightarrow> str" where
  "payload_str U text name = norm_text_str U text @ [0x7C] @ norm_author_str U name"

definition compute_quote_hash_str :: "ucd \<Rightarrow> str option \<Rightarrow> str option \<Rightarrow> exn + string" where
  "compute_quote_hash_str U text name =
     (case str_encode_utf8 (payload_str U text name) of
        Inl e \<Rightarrow> Inl e
      | Inr bytes \<Rightarrow> Inr (hexdigest (sha256 bytes)))"

subsection \<open>The normalization as the specification words it\<close>

text \<open>
  The specification: collapse all whitespace runs in the text to single spaces, strip
  leading and trailing whitespace, lowercase; strip and lowercase the author name, the
  empty string if absent.
\<close>

function collapse_whitespace :: "str \<Rightarrow> str" where
  "collapse_whitespace [] = []"
| "collapse_whitespace (c # cs) =
     (if unicode_isspace c then 0x20 # collapse_whitespace (dropWhile unicode_isspace cs)
      else c # collapse_whitespace cs)"
  by pat_completeness auto
termination
proof (relation "measure length")
  show "wf (measure length)" by simp
next
  fix c :: nat and cs :: str
  show "(dropWhile unicode_isspace cs, c # cs) \<in> measure length"
    by (simp add: length_dropWhile_le le_imp_less_Suc)
next
  fix c :: nat and cs :: str
  show "(cs, c # cs) \<in> measure length" by simp
qed

definition normalize_text :: "ucd \<Rightarrow> str option \<Rightarrow> str" where
  "normalize_text U text =
     str_lower U (str_strip (collapse_whitespace (case text of None \<Rightarrow> [] | Some s \<Rightarrow> s)))"

definition normalize_author :: "ucd \<Rightarrow> str option \<Rightarrow> str" where
  "normalize_author U name =
     (case name of None \<Rightarrow> [] | Some s \<Rightarrow> str_lower U (str_strip s))"

subsection \<open>What is used of the character database\<close>

text \<open>
  Four facts about the lowercase mapping, true of the Unicode data of CPython: the space
  is mapped to itself; a character that is not whitespace is mapped to at least one
  character, none of them whitespace; every character of an image is mapped to itself
  and is not the capital sigma; the two small sigmas are mapped to themselves.
\<close>

definition lower_table_ok :: "ucd \<Rightarrow> bool" where
  "lower_table_ok U =
     (tolower_full U 0x20 = [0x20]
      \<and> (\<forall>c. \<not> unicode_isspace c \<longrightarrow>
             tolower_full U c \<noteq> [] \<and> list_all (\<lambda>d. \<not> unicode_isspace d) (tolower_full U c))
      \<and> (\<forall>c. list_all (\<lambda>d. d \<noteq> 0x3A3 \<and> tolower_full U d = [d]) (tolower_full U c))
      \<and> tolower_full U 0x3C2 = [0x3C2] \<and> tolower_full U 0x3C3 = [0x3C3])"

text \<open>Lowering a segment of a string, with the characters to its left and to its right.\<close>

fun lower_seg :: "ucd \<Rightarrow> str \<Rightarrow> str \<Rightarrow> str \<Rightarrow> str" where
  "lower_seg U before [] after = []"
| "lower_seg U before (c # s) after =
     lower_ucs4 U before c (s @ after) @ lower_seg U (c # before) s after"

text \<open>A word: not empty and without whitespace. A lowered character: the table maps it to itself.\<close>

definition word :: "str \<Rightarrow> bool" where
  "word w = (w \<noteq> [] \<and> list_all (\<lambda>c. \<not> unicode_isspace c) w)"

definition lowered :: "ucd \<Rightarrow> nat \<Rightarrow> bool" where
  "lowered U d = (d \<noteq> 0x3A3 \<and> tolower_full U d = [d])"

text \<open>The code points of a string of the crawl model.\<close>

definition code_points :: "string \<Rightarrow> str" where
  "code_points s = map of_char s"

subsection \<open>A fragment of the character database\<close>

text \<open>
  Basic Latin, Latin-1, the Greek capitals and U+0130, whose lowercase has two
  characters; the apostrophe, the full stop and the combining dot above U+0307 are
  case-ignorable.
\<close>

definition ucd_fragment :: ucd where
  "ucd_fragment =
     \<lparr>tolower_full =
        (\<lambda>c. if (0x41 \<le> c \<and> c \<le> 0x5A) \<or> (0xC0 \<le> c \<and> c \<le> 0xDE \<and> c \<noteq> 0xD7)
                 \<or> (0x391 \<le> c \<and> c \<le> 0x3A9 \<and> c \<noteq> 0x3A2)
              then [c + 32]
              else if c = 0x130 then [0x69, 0x307] else [c]),
      is_cased =
        (\<lambda>c. (0x41 \<le> c \<and> c \<le> 0x5A) \<or> (0x61 \<le> c \<and> c \<le> 0x7A)
              \<or> (0xC0 \<le> c \<and> c \<le> 0xFF \<and> c \<noteq> 0xD7 \<and> c \<noteq> 0xF7)
              \<or> (0x391 \<le> c \<and> c \<le> 0x3C9 \<and> c \<noteq> 0x3A2 \<and> \<not> (0x3AA \<le> c \<and> c \<le> 0x3B0))
              \<or> c = 0x130),
      is_case_ignorable = (\<lambda>c. c = 0x27 \<or> c = 0x2E \<or> c = 0x307)\<rparr>"

text \<open>
  Two spaces, capital alpha, capital sigma, space, em space, U+0130, tab; and its
  normalization: small alpha, final sigma, space, i, combining dot above.
\<close>

definition text_greek :: str where
  "text_greek = [0x20, 0x20, 0x391, 0x3A3, 0x20, 0x2003, 0x130, 0x9]"

definition text_greek_normalized :: str where
  "text_greek_normalized = [0x3B1, 0x3C2, 0x20, 0x69, 0x307]"

text \<open>A string without leading and trailing whitespace.\<close>

definition stripped :: "str \<Rightarrow> bool" where
  "stripped x = (x = [] \<or> (\<not> unicode_isspace (hd x) \<and> \<not> unicode_isspace (last x)))"

section \<open>Predicates used in the statements\<close>

text \<open>The local deltas of a run are counts.\<close>

definition nonneg :: "locals \<Rightarrow> bool" where
  "nonneg l = (0 \<le> saved l \<and> 0 \<le> fetched l \<and> 0 \<le> errors l)"

text \<open>Every job row is still there and none of its counters went down.\<close>

definition jobs_mono :: "db \<Rightarrow> db \<Rightarrow> bool" where
  "jobs_mono st st' =
     (\<forall>pk r. jobs st pk = Some r \<longrightarrow> (\<exists>r'. jobs st' pk = Some r' \<and> counters_le r r'))"

definition step_locals :: "step \<Rightarrow> locals" where
  "step_locals s = (case s of Continue l st \<Rightarrow> l | Break l st \<Rightarrow> l | Raise e l st \<Rightarrow> l)"

definition step_db :: "step \<Rightarrow> db" where
  "step_db s = (case s of Continue l st \<Rightarrow> st | Break l st \<Rightarrow> st | Raise e l st \<Rightarrow> st)"

definition loop_locals :: "exn \<times> locals \<times> db + locals \<times> db \<Rightarrow> locals" where
  "loop_locals r = (case r of Inl (e, l, st) \<Rightarrow> l | Inr (l, st) \<Rightarrow> l)"

definition loop_db :: "exn \<times> locals \<times> db + locals \<times> db \<Rightarrow> db" where
  "loop_db r = (case r of Inl (e, l, st) \<Rightarrow> st | Inr (l, st) \<Rightarrow> st)"

text \<open>No page-level delta is pending.\<close>

definition zeroed :: "locals \<Rightarrow> bool" where
  "zeroed l = (saved l = 0 \<and> fetched l = 0 \<and> errors l = 0)"

text \<open>
  How the store may evolve during a run: sites untouched, every job row kept with its
  site, stored hashes only added, uniqueness of hashes kept, and every new quote row
  either committed by the other writer or carrying a 64-character hex hash.
\<close>

definition run_ext :: "world \<Rightarrow> db \<Rightarrow> db \<Rightarrow> bool" where
  "run_ext W st st' =
     (sites st' = sites st
      \<and> (\<forall>pk r. jobs st pk = Some r \<longrightarrow> (\<exists>r'. jobs st' pk = Some r' \<and> job_site r' = job_site r))
      \<and> hashes st \<subseteq> hashes st'
      \<and> (distinct (map q_hash (quotes st)) \<longrightarrow> distinct (map q_hash (quotes st')))
      \<and> (\<forall>r\<in>set (quotes st'). r \<in> set (quotes st) \<or> (\<exists>p i. r \<in> set (other_writer W p i))
             \<or> hex64 (q_hash r)))"

text \<open>No other writer interferes.\<close>

definition quiet :: "world \<Rightarrow> bool" where
  "quiet W = (\<forall>p i. other_writer W p i = [])"

definition stored_hashes_ok :: "db \<Rightarrow> bool" where
  "stored_hashes_ok st = list_all (\<lambda>r. hex64 (q_hash r)) (quotes st)"

definition writers_ok :: "world \<Rightarrow> bool" where
  "writers_ok W = (\<forall>p i. list_all (\<lambda>r. hex64 (q_hash r)) (other_writer W p i))"

definition try_db :: "exn \<times> db + bool \<times> db \<Rightarrow> db" where
  "try_db r = (case r of Inl (e, st) \<Rightarrow> st | Inr (c, st) \<Rightarrow> st)"


text \<open>The quote table is the same and the saved counter of the job has the same value.\<close>

definition still :: "string \<Rightarrow> db \<Rightarrow> db \<Rightarrow> bool" where
  "still pk st st' =
     (quotes st' = quotes st
      \<and> map_option quotes_saved (jobs st' pk) = map_option quotes_saved (jobs st pk))"



section \<open>Properties of the hash normalizer\<close>

lemma isspace_lower_char [simp]: "isspace (lower_char c) = isspace c"
  by (auto simp: isspace_def lower_char_def Let_def)

lemma lower_char_idem [simp]: "lower_char (lower_char c) = lower_char c"
  by (auto simp: lower_char_def Let_def)

lemma lower_Nil [simp]: "lower [] = []"
  by (simp add: lower_def)

lemma lower_idem [simp]: "lower (lower s) = lower s"
  by (simp add: lower_def)

lemma lower_append [simp]: "lower (a @ b) = lower a @ lower b"
  by (simp add: lower_def)

lemma lower_space [simp]: "lower '' '' = '' ''"
  by (simp add: lower_def lower_char_def)

lemma lower_join: "lower (join sep ws) = join (lower sep) (map lower ws)"
  by (induction sep ws rule: join.induct) simp_all

lemma strip_lower: "strip (lower s) = lower (strip s)"
  by (simp add: strip_def lower_def dropWhile_map rev_map comp_def)

lemma dropWhile_hd_self: "xs = [] \<or> \<not> P (hd xs) \<Longrightarrow> dropWhile P xs = xs"
  by (cases xs) auto

lemma hd_dropWhile_or: "dropWhile P xs = [] \<or> \<not> P (hd (dropWhile P xs))"
  by (metis hd_dropWhile)

lemma strip_idem: "strip (strip s) = strip s"
proof -
  define y where "y = dropWhile isspace s"
  define z where "z = dropWhile isspace (rev y)"
  have y: "y = [] \<or> \<not> isspace (hd y)"
    unfolding y_def by (rule hd_dropWhile_or)
  have "rev y = takeWhile isspace (rev y) @ z"
    unfolding z_def by simp
  then have yz: "y = rev z @ rev (takeWhile isspace (rev y))"
    by (metis rev_append rev_rev_ident)
  then have "rev z = [] \<or> hd (rev z) = hd y"
    by (metis hd_append2)
  with y yz have "rev z = [] \<or> \<not> isspace (hd (rev z))"
    by (metis append_is_Nil_conv)
  then have "dropWhile isspace (rev z) = rev z"
    by (rule dropWhile_hd_self)
  moreover have "dropWhile isspace z = z"
    unfolding z_def by simp
  ultimately show ?thesis
    by (simp add: strip_def y_def [symmetric] z_def [symmetric])
qed

lemma norm_author_idem: "norm_author (Some (norm_author a)) = norm_author a"
  by (simp add: norm_author_def or_empty_def strip_lower strip_idem)

lemma split_Nil [simp]: "split [] = []"
  by (simp add: split.simps)

lemma split_dropWhile: "split (dropWhile isspace s) = split s"
  by (subst (1 2) split.simps) simp

lemma split_space_cons: "isspace d \<Longrightarrow> split (d # r) = split r"
  using split_dropWhile [of "d # r"] split_dropWhile [of r] by simp

lemma takeWhile_good:
  "list_all (\<lambda>c. \<not> isspace c) w \<Longrightarrow> isspace d \<Longrightarrow> takeWhile (\<lambda>x. \<not> isspace x) (w @ d # r) = w"
  by (induction w) auto

lemma dropWhile_good:
  "list_all (\<lambda>c. \<not> isspace c) w \<Longrightarrow> isspace d \<Longrightarrow> dropWhile (\<lambda>x. \<not> isspace x) (w @ d # r) = d # r"
  by (induction w) auto

lemma split_word_cons:
  assumes "good_word w" "isspace d"
  shows "split (w @ d # r) = w # split r"
proof -
  obtain c cs where w: "w = c # cs"
    using assms(1) by (cases w) (auto simp: good_word_def)
  have ns: "list_all (\<lambda>c. \<not> isspace c) w"
    using assms(1) by (simp add: good_word_def)
  have "\<not> isspace c" using ns w by simp
  then have d: "dropWhile isspace (w @ d # r) = c # (cs @ d # r)"
    by (simp add: w)
  have t: "takeWhile (\<lambda>x. \<not> isspace x) (c # (cs @ d # r)) = w"
    using takeWhile_good [OF ns assms(2), of r] by (simp add: w)
  have dr: "dropWhile (\<lambda>x. \<not> isspace x) (c # (cs @ d # r)) = d # r"
    using dropWhile_good [OF ns assms(2), of r] by (simp add: w)
  show ?thesis
    by (subst split.simps) (simp only: d list.case t dr split_space_cons [OF assms(2)])
qed

lemma split_word:
  assumes "good_word w"
  shows "split w = [w]"
proof -
  obtain c cs where w: "w = c # cs"
    using assms by (cases w) (auto simp: good_word_def)
  have ns: "list_all (\<lambda>c. \<not> isspace c) w"
    using assms by (simp add: good_word_def)
  have "\<not> isspace c" using ns w by simp
  then have d: "dropWhile isspace w = c # cs" by (simp add: w)
  have t: "takeWhile (\<lambda>x. \<not> isspace x) (c # cs) = w"
    using ns w by (metis list_all_iff takeWhile_eq_all_conv)
  have dr: "dropWhile (\<lambda>x. \<not> isspace x) (c # cs) = []"
    using ns w by (metis list_all_iff dropWhile_eq_Nil_conv)
  show ?thesis
    by (subst split.simps) (simp only: d list.case t dr split_Nil)
qed

lemma isspace_space [simp]: "isspace CHR '' ''"
  by (simp add: isspace_def)

lemma split_join: "list_all good_word ws \<Longrightarrow> split (join '' '' ws) = ws"
proof (induction "'' ''" ws rule: join.induct)
  case 1
  show ?case by simp
next
  case (2 w)
  then show ?case by (simp add: split_word)
next
  case (3 w v ws)
  then show ?case
    using split_word_cons [of w "CHR '' ''" "join '' '' (v # ws)"] by simp
qed

lemma good_word_lower: "good_word w \<Longrightarrow> good_word (lower w)"
  by (simp add: good_word_def lower_def list_all_iff)

lemma split_good: "list_all good_word (split s)"
proof (induction s rule: split.induct)
  case (1 s)
  show ?case
  proof (cases "dropWhile isspace s")
    case Nil
    then show ?thesis by (subst split.simps) (simp only: list.case, simp)
  next
    case (Cons c cs)
    have "\<not> isspace c"
      using Cons by (metis hd_dropWhile list.sel(1) list.distinct(1))
    then have "good_word (takeWhile (\<lambda>x. \<not> isspace x) (c # cs))"
      by (auto simp: good_word_def list_all_iff dest: set_takeWhileD)
    with 1 Cons show ?thesis by (subst split.simps) simp
  qed
qed

lemma split_all_space: "list_all isspace sp \<Longrightarrow> split sp = []"
proof -
  assume "list_all isspace sp"
  then have "dropWhile isspace sp = []" by (simp add: list_all_iff)
  then show ?thesis by (subst split.simps) (simp only: list.case)
qed

text \<open>Trailing whitespace does not change the words.\<close>

lemma split_trailing: "list_all isspace sp \<Longrightarrow> split (x @ sp) = split x"
proof (induction x rule: split.induct)
  case (1 s)
  show ?case
  proof (cases "dropWhile isspace s")
    case Nil
    then have "list_all isspace (s @ sp)"
      using 1(2) by (auto simp: list_all_iff)
    then have "split (s @ sp) = []" by (rule split_all_space)
    moreover have "split s = []"
      by (subst split.simps) (simp only: Nil list.case)
    ultimately show ?thesis by simp
  next
    case (Cons c cs)
    then have "\<exists>a\<in>set s. \<not> isspace a"
      by (metis dropWhile_eq_Nil_conv list.distinct(1))
    then obtain a where "a \<in> set s" "\<not> isspace a" by blast
    then have "dropWhile isspace (s @ sp) = dropWhile isspace s @ sp"
      by (rule dropWhile_append1)
    then have d: "dropWhile isspace (s @ sp) = (c # cs) @ sp"
      by (simp only: Cons)
    show ?thesis
    proof (cases "list_all (\<lambda>x. \<not> isspace x) (c # cs)")
      case True
      have t: "takeWhile (\<lambda>x. \<not> isspace x) ((c # cs) @ sp) = c # cs"
        using True 1(2)
        by (cases sp) (auto simp: list_all_iff takeWhile_append2 takeWhile_eq_all_conv [THEN iffD2])
      have dr: "dropWhile (\<lambda>x. \<not> isspace x) ((c # cs) @ sp) = sp"
        using True 1(2)
        by (cases sp) (auto simp: list_all_iff dropWhile_append2 dropWhile_eq_Nil_conv [THEN iffD2])
      have t0: "takeWhile (\<lambda>x. \<not> isspace x) (c # cs) = c # cs"
        using True by (metis list_all_iff takeWhile_eq_all_conv)
      have dr0: "dropWhile (\<lambda>x. \<not> isspace x) (c # cs) = []"
        using True by (metis list_all_iff dropWhile_eq_Nil_conv)
      have l: "split (s @ sp) = [c # cs]"
        by (subst split.simps)
          (simp only: d append_Cons list.case t [unfolded append_Cons] dr [unfolded append_Cons]
            split_all_space [OF 1(2)])
      have r: "split s = [c # cs]"
        by (subst split.simps) (simp only: Cons list.case t0 dr0 split_Nil)
      show ?thesis by (simp only: l r)
    next
      case False
      then have ex2: "\<exists>a\<in>set (c # cs). \<not> \<not> isspace a"
        by (simp add: list_all_iff)
      have t: "takeWhile (\<lambda>x. \<not> isspace x) ((c # cs) @ sp) = takeWhile (\<lambda>x. \<not> isspace x) (c # cs)"
        using ex2 by (metis takeWhile_append1)
      have dr: "dropWhile (\<lambda>x. \<not> isspace x) ((c # cs) @ sp)
                  = dropWhile (\<lambda>x. \<not> isspace x) (c # cs) @ sp"
        using ex2 by (metis dropWhile_append1)
      have ih: "split (dropWhile (\<lambda>x. \<not> isspace x) (c # cs) @ sp)
                  = split (dropWhile (\<lambda>x. \<not> isspace x) (c # cs))"
        using 1(1) [OF Cons 1(2)] .
      have l: "split (s @ sp) = takeWhile (\<lambda>x. \<not> isspace x) (c # cs)
                  # split (dropWhile (\<lambda>x. \<not> isspace x) (c # cs))"
        by (subst split.simps)
          (simp only: d append_Cons list.case t [unfolded append_Cons] dr [unfolded append_Cons] ih)
      have r: "split s = takeWhile (\<lambda>x. \<not> isspace x) (c # cs)
                  # split (dropWhile (\<lambda>x. \<not> isspace x) (c # cs))"
        by (subst split.simps) (simp only: Cons list.case)
      show ?thesis by (simp only: l r)
    qed
  qed
qed

lemma split_strip: "split (strip s) = split s"
proof -
  define y where "y = dropWhile isspace s"
  have "y = rev (dropWhile isspace (rev y)) @ rev (takeWhile isspace (rev y))"
    by (metis rev_append rev_rev_ident takeWhile_dropWhile_id)
  moreover have "list_all isspace (rev (takeWhile isspace (rev y)))"
    by (auto simp: list_all_iff dest: set_takeWhileD)
  ultimately have "split y = split (rev (dropWhile isspace (rev y)))"
    using split_trailing by metis
  then show ?thesis
    by (simp add: strip_def y_def split_dropWhile)
qed

lemma norm_text_idem: "norm_text (Some (norm_text t)) = norm_text t"
proof -
  define ws where "ws = map lower (split (strip (or_empty t)))"
  have g: "list_all good_word ws"
    using split_good [of "strip (or_empty t)"]
    by (simp add: ws_def list_all_iff good_word_lower)
  have r: "norm_text t = join '' '' ws"
    by (simp add: norm_text_def lower_join ws_def)
  have "split (strip (join '' '' ws)) = ws"
    by (simp add: split_strip split_join g)
  moreover have "map lower ws = ws"
    by (simp add: ws_def)
  ultimately show ?thesis
    by (simp add: r) (simp add: norm_text_def or_empty_def lower_join)
qed

lemma length_hex32 [simp]: "length (hex32 w) = 8"
  by (simp add: hex32_def)

lemma length_hexdigest: "length (hexdigest s) = 64"
  by (simp add: hexdigest_def split: prod.splits)

lemma nibble_bound: "unat ((x :: w32) AND 0xF) < 16"
proof -
  have "unat (x AND 0xF) \<le> unat (0xF :: w32)"
    by (rule word_and_le1 [THEN word_le_nat_alt [THEN iffD1]])
  then show ?thesis by simp
qed

lemma hexchars_nth: "n < 16 \<Longrightarrow> hexchars ! n \<in> set hexchars"
proof -
  have "length hexchars = 16" by (simp add: hexchars_def)
  then show "n < 16 \<Longrightarrow> hexchars ! n \<in> set hexchars" by (metis nth_mem)
qed

lemma hex32_chars: "list_all (\<lambda>c. c \<in> set hexchars) (hex32 w)"
  by (simp add: hex32_def list_all_iff hexchars_nth nibble_bound)

lemma hexdigest_chars: "list_all (\<lambda>c. c \<in> set hexchars) (hexdigest s)"
  by (simp add: hexdigest_def hex32_chars split: prod.splits)

lemma hex64_compute_quote_hash [simp]: "hex64 (compute_quote_hash t a)"
  by (simp add: hex64_def compute_quote_hash_def Let_def length_hexdigest hexdigest_chars)

lemma compute_quote_hash_nonempty [simp]: "compute_quote_hash t a \<noteq> []"
  using length_hexdigest [of "sha256 (encode_utf8 (norm_text t @ ''|'' @ norm_author a))"]
  by (auto simp: compute_quote_hash_def Let_def)

section \<open>Whitespace structure of Python strings\<close>

lemma unicode_isspace_consts [simp]:
  "\<not> unicode_isspace 0x3A3" "\<not> unicode_isspace 0x3C2" "\<not> unicode_isspace 0x3C3"
  "unicode_isspace 0x20" "\<not> unicode_isspace 0x7C"
  by (simp_all add: unicode_isspace_def)

lemma str_strip_idem: "str_strip (str_strip s) = str_strip s"
proof -
  define y where "y = dropWhile unicode_isspace s"
  define z where "z = dropWhile unicode_isspace (rev y)"
  have y: "y = [] \<or> \<not> unicode_isspace (hd y)"
    unfolding y_def by (rule hd_dropWhile_or)
  have "rev y = takeWhile unicode_isspace (rev y) @ z"
    unfolding z_def by simp
  then have yz: "y = rev z @ rev (takeWhile unicode_isspace (rev y))"
    by (metis rev_append rev_rev_ident)
  then have "rev z = [] \<or> hd (rev z) = hd y"
    by (metis hd_append2)
  with y yz have "rev z = [] \<or> \<not> unicode_isspace (hd (rev z))"
    by (metis append_is_Nil_conv)
  then have "dropWhile unicode_isspace (rev z) = rev z"
    by (rule dropWhile_hd_self)
  moreover have "dropWhile unicode_isspace z = z"
    unfolding z_def by simp
  ultimately show ?thesis
    by (simp add: str_strip_def y_def [symmetric] z_def [symmetric])
qed

lemma str_split_Nil [simp]: "str_split [] = []"
  by (simp add: str_split.simps)

lemma str_split_dropWhile: "str_split (dropWhile unicode_isspace s) = str_split s"
  by (subst (1 2) str_split.simps) simp

lemma str_split_space_cons: "unicode_isspace d \<Longrightarrow> str_split (d # r) = str_split r"
  using str_split_dropWhile [of "d # r"] str_split_dropWhile [of r] by simp

lemma str_split_all_space: "list_all unicode_isspace sp \<Longrightarrow> str_split sp = []"
proof -
  assume "list_all unicode_isspace sp"
  then have "dropWhile unicode_isspace sp = []" by (simp add: list_all_iff)
  then show ?thesis by (subst str_split.simps) (simp only: list.case)
qed

lemma takeWhile_word:
  "list_all (\<lambda>c. \<not> unicode_isspace c) w \<Longrightarrow> r = [] \<or> unicode_isspace (hd r) \<Longrightarrow>
     takeWhile (\<lambda>x. \<not> unicode_isspace x) (w @ r) = w"
  by (cases r; induction w; auto)

lemma dropWhile_word:
  "list_all (\<lambda>c. \<not> unicode_isspace c) w \<Longrightarrow> r = [] \<or> unicode_isspace (hd r) \<Longrightarrow>
     dropWhile (\<lambda>x. \<not> unicode_isspace x) (w @ r) = r"
  by (cases r; induction w; auto)

text \<open>A word followed by nothing or by whitespace is the first word of the split.\<close>

lemma str_split_word_append:
  assumes "word w" and "r = [] \<or> unicode_isspace (hd r)"
  shows "str_split (w @ r) = w # str_split r"
proof -
  obtain c cs where w: "w = c # cs"
    using assms(1) by (cases w) (auto simp: word_def)
  have ns: "list_all (\<lambda>c. \<not> unicode_isspace c) w"
    using assms(1) by (simp add: word_def)
  have "\<not> unicode_isspace c" using ns w by simp
  then have d: "dropWhile unicode_isspace (w @ r) = c # (cs @ r)"
    by (simp add: w)
  have t: "takeWhile (\<lambda>x. \<not> unicode_isspace x) (c # (cs @ r)) = w"
    using takeWhile_word [OF ns assms(2)] by (simp add: w)
  have dr: "dropWhile (\<lambda>x. \<not> unicode_isspace x) (c # (cs @ r)) = r"
    using dropWhile_word [OF ns assms(2)] by (simp add: w)
  show ?thesis
    by (subst str_split.simps) (simp only: d list.case t dr)
qed

lemma str_split_word: "word w \<Longrightarrow> str_split w = [w]"
  using str_split_word_append [of w "[]"] by simp

lemma str_split_join: "list_all word ws \<Longrightarrow> str_split (str_join [0x20] ws) = ws"
proof (induction "[0x20 :: nat]" ws rule: str_join.induct)
  case 1
  show ?case by simp
next
  case (2 w)
  then show ?case by (simp add: str_split_word)
next
  case (3 w v ws)
  have "str_split (w @ 0x20 # str_join [0x20] (v # ws)) = w # str_split (0x20 # str_join [0x20] (v # ws))"
    using 3(2) by (intro str_split_word_append) simp_all
  with 3 show ?case by (simp add: str_split_space_cons)
qed

lemma str_split_words: "list_all word (str_split s)"
proof (induction s rule: str_split.induct)
  case (1 s)
  show ?case
  proof (cases "dropWhile unicode_isspace s")
    case Nil
    then show ?thesis by (subst str_split.simps) (simp only: list.case, simp)
  next
    case (Cons c cs)
    have "\<not> unicode_isspace c"
      using Cons by (metis hd_dropWhile list.sel(1) list.distinct(1))
    then have "word (takeWhile (\<lambda>x. \<not> unicode_isspace x) (c # cs))"
      by (auto simp: word_def list_all_iff dest: set_takeWhileD)
    with 1 Cons show ?thesis by (subst str_split.simps) simp
  qed
qed

text \<open>Trailing whitespace does not change the words.\<close>

lemma str_split_trailing: "list_all unicode_isspace sp \<Longrightarrow> str_split (x @ sp) = str_split x"
proof (induction x rule: str_split.induct)
  case (1 s)
  show ?case
  proof (cases "dropWhile unicode_isspace s")
    case Nil
    then have "list_all unicode_isspace (s @ sp)"
      using 1(2) by (auto simp: list_all_iff)
    then have "str_split (s @ sp) = []" by (rule str_split_all_space)
    moreover have "str_split s = []"
      by (subst str_split.simps) (simp only: Nil list.case)
    ultimately show ?thesis by simp
  next
    case (Cons c cs)
    define w where "w = takeWhile (\<lambda>x. \<not> unicode_isspace x) (c # cs)"
    define r where "r = dropWhile (\<lambda>x. \<not> unicode_isspace x) (c # cs)"
    have wr: "c # cs = w @ r" by (simp add: w_def r_def)
    have nc: "\<not> unicode_isspace c"
      using Cons by (metis hd_dropWhile list.sel(1) list.distinct(1))
    then have ww: "word w"
      by (auto simp: w_def word_def list_all_iff dest: set_takeWhileD)
    have rh: "r = [] \<or> unicode_isspace (hd r)"
      unfolding r_def using hd_dropWhile [of "\<lambda>x. \<not> unicode_isspace x" "c # cs"] by blast
    have rs: "r @ sp = [] \<or> unicode_isspace (hd (r @ sp))"
    proof (cases r)
      case Nil
      with 1(2) show ?thesis by (cases sp) simp_all
    next
      case (Cons a list)
      with rh show ?thesis by simp
    qed
    have ih: "str_split (r @ sp) = str_split r"
      using 1(1) [OF Cons 1(2)] by (simp add: r_def)
    have "str_split (s @ sp) = str_split (dropWhile unicode_isspace (s @ sp))"
      by (simp add: str_split_dropWhile)
    also have "dropWhile unicode_isspace (s @ sp) = (c # cs) @ sp"
    proof -
      from Cons have "\<exists>a\<in>set s. \<not> unicode_isspace a"
        by (metis dropWhile_eq_Nil_conv list.distinct(1))
      then obtain a where "a \<in> set s" "\<not> unicode_isspace a" by blast
      then have "dropWhile unicode_isspace (s @ sp) = dropWhile unicode_isspace s @ sp"
        by (rule dropWhile_append1)
      with Cons show ?thesis by simp
    qed
    also have "str_split ((c # cs) @ sp) = w # str_split (r @ sp)"
      using str_split_word_append [OF ww rs] by (simp add: wr)
    finally have l: "str_split (s @ sp) = w # str_split r" by (simp add: ih)
    have "str_split s = str_split (c # cs)"
      using str_split_dropWhile [of s] by (simp add: Cons)
    also have "\<dots> = w # str_split r"
      using str_split_word_append [OF ww rh] by (simp add: wr)
    finally show ?thesis using l by simp
  qed
qed

lemma str_split_strip: "str_split (str_strip s) = str_split s"
proof -
  define y where "y = dropWhile unicode_isspace s"
  have "y = rev (dropWhile unicode_isspace (rev y)) @ rev (takeWhile unicode_isspace (rev y))"
    by (metis rev_append rev_rev_ident takeWhile_dropWhile_id)
  moreover have "list_all unicode_isspace (rev (takeWhile unicode_isspace (rev y)))"
    by (auto simp: list_all_iff dest: set_takeWhileD)
  ultimately have "str_split y = str_split (rev (dropWhile unicode_isspace (rev y)))"
    using str_split_trailing by metis
  then show ?thesis
    by (simp add: str_strip_def y_def str_split_dropWhile)
qed

section \<open>Lowercasing\<close>

lemma do_lower_seg: "do_lower U b s = lower_seg U b s []"
  by (induction s arbitrary: b) simp_all

lemma lower_seg_append:
  "lower_seg U b (x @ y) a = lower_seg U b x (y @ a) @ lower_seg U (rev x @ b) y a"
  by (induction x arbitrary: b) simp_all

lemma lower_ucs4_word:
  assumes "lower_table_ok U" and "\<not> unicode_isspace c"
  shows "lower_ucs4 U b c a \<noteq> [] \<and> list_all (\<lambda>d. \<not> unicode_isspace d) (lower_ucs4 U b c a)"
  using assms by (simp add: lower_ucs4_def lower_table_ok_def)

lemma lower_seg_word:
  assumes "lower_table_ok U"
  shows "word w \<Longrightarrow> word (lower_seg U b w a)"
proof (induction w arbitrary: b)
  case Nil
  then show ?case by (simp add: word_def)
next
  case (Cons c w)
  from Cons.prems have c: "\<not> unicode_isspace c" by (simp add: word_def)
  note h = lower_ucs4_word [OF assms c, of b "w @ a"]
  show ?case
  proof (cases w)
    case Nil
    with h show ?thesis by (simp add: word_def)
  next
    case (Cons d w')
    with Cons.prems have "word w" by (simp add: word_def)
    from Cons.IH [OF this, of "c # b"] h show ?thesis by (simp add: word_def)
  qed
qed

lemma lower_seg_space:
  "lower_table_ok U \<Longrightarrow> lower_seg U b [0x20] a = [0x20]"
  by (simp add: lower_ucs4_def lower_table_ok_def)

lemma lower_seg_join:
  assumes "lower_table_ok U"
  shows "list_all word ws \<Longrightarrow>
         \<exists>ws'. lower_seg U b (str_join [0x20] ws) a = str_join [0x20] ws' \<and> list_all word ws'"
proof (induction "[0x20 :: nat]" ws arbitrary: b rule: str_join.induct)
  case 1
  have "lower_seg U b (str_join [0x20] []) a = str_join [0x20] [] \<and> list_all word []" by simp
  then show ?case by blast
next
  case (2 w)
  then have "word (lower_seg U b w a)" by (simp add: lower_seg_word [OF assms])
  then have "lower_seg U b (str_join [0x20] [w]) a = str_join [0x20] [lower_seg U b w a]
             \<and> list_all word [lower_seg U b w a]" by simp
  then show ?case by blast
next
  case (3 w v ws)
  let ?rest = "str_join [0x20] (v # ws)"
  from 3(2) have ww: "word w" and r: "list_all word (v # ws)" by simp_all
  from 3(1) [OF r, of "0x20 # rev w @ b"] obtain ws' where
    ws': "lower_seg U (0x20 # rev w @ b) ?rest a = str_join [0x20] ws'" "list_all word ws'"
    by blast
  have ne: "ws' \<noteq> []"
  proof
    assume "ws' = []"
    with ws'(1) have "lower_seg U (0x20 # rev w @ b) ?rest a = []" by simp
    moreover have "word v" using r by simp
    then obtain c cs where "v = c # cs" by (cases v) (auto simp: word_def)
    then obtain x where "?rest = c # x" by (cases ws) simp_all
    moreover have "\<not> unicode_isspace c" using \<open>word v\<close> \<open>v = c # cs\<close> by (simp add: word_def)
    ultimately show False
      using lower_ucs4_word [OF assms, of c] by simp
  qed
  let ?w' = "lower_seg U b w (0x20 # ?rest @ a)"
  have w': "word ?w'" using ww by (rule lower_seg_word [OF assms])
  have "lower_seg U b (str_join [0x20] (w # v # ws)) a
          = lower_seg U b (w @ [0x20] @ ?rest) a" by simp
  also have "\<dots> = ?w' @ lower_seg U (rev w @ b) ([0x20] @ ?rest) a"
    by (simp add: lower_seg_append)
  also have "lower_seg U (rev w @ b) ([0x20] @ ?rest) a
               = lower_seg U (rev w @ b) [0x20] (?rest @ a)
                 @ lower_seg U (0x20 # rev w @ b) ?rest a"
    by (simp only: lower_seg_append) simp
  also have "lower_seg U (rev w @ b) [0x20] (?rest @ a) = [0x20]"
    by (rule lower_seg_space [OF assms])
  finally have "lower_seg U b (str_join [0x20] (w # v # ws)) a
                  = ?w' @ [0x20] @ str_join [0x20] ws'"
    by (simp add: ws'(1))
  also have "\<dots> = str_join [0x20] (?w' # ws')"
    using ne by (cases ws') simp_all
  finally show ?case using w' ws'(2) by (intro exI [of _ "?w' # ws'"]) simp
qed

lemma lower_ucs4_lowered:
  "lower_table_ok U \<Longrightarrow> list_all (lowered U) (lower_ucs4 U b c a)"
  by (auto simp: lower_ucs4_def lowered_def lower_table_ok_def list_all_iff)

lemma lower_seg_lowered:
  "lower_table_ok U \<Longrightarrow> list_all (lowered U) (lower_seg U b s a)"
  by (induction s arbitrary: b) (simp_all add: lower_ucs4_lowered)

lemma do_lower_lowered: "list_all (lowered U) s \<Longrightarrow> do_lower U b s = s"
  by (induction s arbitrary: b) (simp_all add: lowered_def lower_ucs4_def)

lemma str_lower_lowered: "lower_table_ok U \<Longrightarrow> list_all (lowered U) (str_lower U s)"
  by (simp add: str_lower_def do_lower_seg lower_seg_lowered)

lemma str_lower_fixed: "list_all (lowered U) s \<Longrightarrow> str_lower U s = s"
  by (simp add: str_lower_def do_lower_lowered)

lemma str_lower_idem: "lower_table_ok U \<Longrightarrow> str_lower U (str_lower U s) = str_lower U s"
  by (rule str_lower_fixed) (rule str_lower_lowered)

section \<open>The normalization in the words of the specification\<close>

lemma collapse_word_append:
  "list_all (\<lambda>c. \<not> unicode_isspace c) w \<Longrightarrow>
     collapse_whitespace (w @ r) = w @ collapse_whitespace r"
  by (induction w) simp_all

lemma collapse_head: "r = [] \<or> \<not> unicode_isspace (hd r) \<Longrightarrow>
    collapse_whitespace r = [] \<or> \<not> unicode_isspace (hd (collapse_whitespace r))"
  by (cases r) auto

lemma dropWhile_collapse:
  "dropWhile unicode_isspace (collapse_whitespace s)
     = collapse_whitespace (dropWhile unicode_isspace s)"
proof (cases s)
  case Nil
  then show ?thesis by simp
next
  case (Cons c cs)
  have h: "dropWhile unicode_isspace (collapse_whitespace (dropWhile unicode_isspace cs))
             = collapse_whitespace (dropWhile unicode_isspace cs)"
    by (rule dropWhile_hd_self) (rule collapse_head, rule hd_dropWhile_or)
  show ?thesis
  proof (cases "unicode_isspace c")
    case True
    with Cons h show ?thesis by simp
  next
    case False
    with Cons show ?thesis by simp
  qed
qed

lemma rstrip_append:
  "rev (dropWhile unicode_isspace (rev (x @ y)))
     = (if list_all unicode_isspace y then rev (dropWhile unicode_isspace (rev x))
        else x @ rev (dropWhile unicode_isspace (rev y)))"
  by (simp add: dropWhile_append list_all_iff)

lemma rstrip_word:
  "word w \<Longrightarrow> rev (dropWhile unicode_isspace (rev w)) = w"
proof -
  assume "word w"
  then have "rev w = [] \<or> \<not> unicode_isspace (hd (rev w))"
    by (cases w rule: rev_cases) (simp_all add: word_def)
  then have "dropWhile unicode_isspace (rev w) = rev w" by (rule dropWhile_hd_self)
  then show ?thesis by simp
qed

lemma str_join_Nil_iff: "list_all word ws \<Longrightarrow> str_join [0x20] ws = [] \<longleftrightarrow> ws = []"
  by (induction "[0x20 :: nat]" ws rule: str_join.induct) (simp_all add: word_def)

lemma str_join_Cons:
  "str_join [0x20] (w # ws) = (if ws = [] then w else w @ 0x20 # str_join [0x20] ws)"
  by (cases ws) simp_all

text \<open>Trailing whitespace removed from the collapsed string: the words joined by spaces.\<close>

lemma rstrip_collapse:
  "rev (dropWhile unicode_isspace (rev (collapse_whitespace (dropWhile unicode_isspace s))))
     = str_join [0x20] (str_split s)"
proof (induction s rule: str_split.induct)
  case (1 s)
  show ?case
  proof (cases "dropWhile unicode_isspace s")
    case Nil
    have e: "str_split s = []" by (subst str_split.simps) (simp only: Nil list.case)
    show ?thesis by (simp only: Nil e, simp)
  next
    case (Cons c cs)
    define w where "w = takeWhile (\<lambda>x. \<not> unicode_isspace x) (c # cs)"
    define r where "r = dropWhile (\<lambda>x. \<not> unicode_isspace x) (c # cs)"
    define Y where "Y = collapse_whitespace (dropWhile unicode_isspace r)"
    have wr: "c # cs = w @ r" by (simp add: w_def r_def)
    have nc: "\<not> unicode_isspace c"
      using Cons by (metis hd_dropWhile list.sel(1) list.distinct(1))
    then have ww: "word w"
      by (auto simp: w_def word_def list_all_iff dest: set_takeWhileD)
    then have ns: "list_all (\<lambda>c. \<not> unicode_isspace c) w" by (simp add: word_def)
    have rh: "r = [] \<or> unicode_isspace (hd r)"
      unfolding r_def using hd_dropWhile [of "\<lambda>x. \<not> unicode_isspace x" "c # cs"] by blast
    have sp: "str_split s = w # str_split r"
      by (subst str_split.simps) (simp add: Cons w_def r_def)
    have ih: "rev (dropWhile unicode_isspace (rev Y)) = str_join [0x20] (str_split r)"
      using 1 [OF Cons] by (simp add: r_def Y_def)
    have cr: "collapse_whitespace r = (if r = [] then [] else 0x20 # Y)"
      using rh by (cases r) (simp_all add: Y_def)
    have "rev (dropWhile unicode_isspace (rev (collapse_whitespace (dropWhile unicode_isspace s))))
            = rev (dropWhile unicode_isspace (rev (w @ collapse_whitespace r)))"
      by (simp only: Cons wr collapse_word_append [OF ns])
    also have "\<dots> = str_join [0x20] (w # str_split r)"
    proof (cases "r = []")
      case True
      then show ?thesis by (simp add: rstrip_word [OF ww])
    next
      case False
      show ?thesis
      proof (cases "list_all unicode_isspace Y")
        case True
        then have "rev (dropWhile unicode_isspace (rev Y)) = []" by (simp add: list_all_iff)
        with ih have "str_split r = []"
          using str_join_Nil_iff [OF str_split_words, of r] by simp
        with True False show ?thesis
          by (simp only: cr rstrip_append) (simp add: rstrip_word [OF ww, simplified])
      next
        case nsp: False
        then have "rev (dropWhile unicode_isspace (rev Y)) \<noteq> []" by (simp add: list_all_iff)
        with ih have ne: "str_split r \<noteq> []" by auto
        have "rev (dropWhile unicode_isspace (rev (w @ 0x20 # Y)))
                = w @ rev (dropWhile unicode_isspace (rev (0x20 # Y)))"
          using nsp by (subst rstrip_append) simp
        also have "rev (dropWhile unicode_isspace (rev (0x20 # Y)))
                     = 0x20 # rev (dropWhile unicode_isspace (rev Y))"
          using nsp rstrip_append [of "[0x20]" Y] by simp
        finally show ?thesis using False ne ih by (simp add: cr str_join_Cons)
      qed
    qed
    finally show ?thesis by (simp only: sp)
  qed
qed

lemma join_split_collapse:
  "str_join [0x20] (str_split (str_strip s)) = str_strip (collapse_whitespace s)"
proof -
  have "str_join [0x20] (str_split (str_strip s)) = str_join [0x20] (str_split s)"
    by (simp add: str_split_strip)
  also have "\<dots> = rev (dropWhile unicode_isspace
                        (rev (collapse_whitespace (dropWhile unicode_isspace s))))"
    by (rule rstrip_collapse [symmetric])
  also have "\<dots> = str_strip (collapse_whitespace s)"
    by (simp add: str_strip_def dropWhile_collapse)
  finally show ?thesis .
qed

lemma norm_text_as_specified: "norm_text_str U t = normalize_text U t"
  by (simp add: norm_text_str_def normalize_text_def join_split_collapse)

lemma str_strip_Nil [simp]: "str_strip [] = []"
  by (simp add: str_strip_def)

lemma do_lower_Nil [simp]: "str_lower U [] = []"
  by (simp add: str_lower_def)

lemma norm_author_as_specified: "norm_author_str U a = normalize_author U a"
  by (cases a) (simp_all add: norm_author_str_def normalize_author_def)

section \<open>The normalization is idempotent\<close>

lemma norm_text_str_Some:
  "norm_text_str U (Some x) = str_lower U (str_join [0x20] (str_split (str_strip x)))"
  by (simp add: norm_text_str_def)

lemma norm_text_str_idem:
  assumes "lower_table_ok U"
  shows "norm_text_str U (Some (norm_text_str U t)) = norm_text_str U t"
proof -
  define ws where "ws = str_split (str_strip (case t of None \<Rightarrow> [] | Some s \<Rightarrow> s))"
  have g: "list_all word ws" unfolding ws_def by (rule str_split_words)
  from lower_seg_join [OF assms g, of "[]" "[]"] obtain ws' where
    l: "str_lower U (str_join [0x20] ws) = str_join [0x20] ws'" and g': "list_all word ws'"
    by (auto simp: str_lower_def do_lower_seg)
  have r: "norm_text_str U t = str_join [0x20] ws'"
    by (simp add: norm_text_str_def ws_def [symmetric] l)
  have "str_split (str_strip (str_join [0x20] ws')) = ws'"
    by (simp add: str_split_strip str_split_join g')
  then have "norm_text_str U (Some (norm_text_str U t)) = str_lower U (str_join [0x20] ws')"
    by (simp add: norm_text_str_Some r)
  also have "\<dots> = str_lower U (str_lower U (str_join [0x20] ws))" by (simp add: l)
  also have "\<dots> = str_lower U (str_join [0x20] ws)" by (rule str_lower_idem [OF assms])
  finally show ?thesis by (simp add: l r)
qed

lemma stripped_strip: "stripped (str_strip s)"
proof -
  define y where "y = dropWhile unicode_isspace s"
  define z where "z = dropWhile unicode_isspace (rev y)"
  have y: "y = [] \<or> \<not> unicode_isspace (hd y)"
    unfolding y_def by (rule hd_dropWhile_or)
  have z: "z = [] \<or> \<not> unicode_isspace (hd z)"
    unfolding z_def by (rule hd_dropWhile_or)
  have "rev y = takeWhile unicode_isspace (rev y) @ z"
    unfolding z_def by simp
  then have yz: "y = rev z @ rev (takeWhile unicode_isspace (rev y))"
    by (metis rev_append rev_rev_ident)
  then have "rev z = [] \<or> hd (rev z) = hd y"
    by (metis hd_append2)
  with y yz have h: "rev z = [] \<or> \<not> unicode_isspace (hd (rev z))"
    by (metis append_is_Nil_conv)
  have "str_strip s = rev z" by (simp add: str_strip_def y_def z_def)
  moreover have "rev z = [] \<or> \<not> unicode_isspace (last (rev z))"
    using z by (cases z) simp_all
  ultimately show ?thesis using h by (auto simp: stripped_def)
qed

lemma str_strip_stripped: "stripped x \<Longrightarrow> str_strip x = x"
proof -
  assume s: "stripped x"
  then have "dropWhile unicode_isspace x = x"
    by (intro dropWhile_hd_self) (auto simp: stripped_def)
  moreover from s have "rev x = [] \<or> \<not> unicode_isspace (hd (rev x))"
    by (cases x rule: rev_cases) (auto simp: stripped_def)
  then have "dropWhile unicode_isspace (rev x) = rev x" by (rule dropWhile_hd_self)
  ultimately show ?thesis by (simp add: str_strip_def)
qed

lemma stripped_lower:
  assumes "lower_table_ok U" and "stripped x"
  shows "stripped (str_lower U x)"
proof (cases x rule: rev_cases)
  case Nil
  then show ?thesis by (simp add: stripped_def)
next
  case (snoc x' d)
  with assms(2) have d: "\<not> unicode_isspace d" by (simp add: stripped_def)
  from snoc have "x \<noteq> []" by simp
  with assms(2) obtain c x'' where x: "x = c # x''" and c: "\<not> unicode_isspace c"
    by (cases x) (auto simp: stripped_def)
  note hc = lower_ucs4_word [OF assms(1) c, of "[]" x'']
  note hd = lower_ucs4_word [OF assms(1) d, of "rev x'" "[]"]
  have first: "str_lower U x = lower_ucs4 U [] c x'' @ do_lower U [c] x''"
    by (simp add: str_lower_def x)
  have last: "str_lower U x = lower_seg U [] x' [d] @ lower_ucs4 U (rev x') d []"
    by (simp add: str_lower_def do_lower_seg snoc lower_seg_append)
  have "\<not> unicode_isspace (hd (str_lower U x))"
    using hc by (cases "lower_ucs4 U [] c x''") (simp_all add: first)
  moreover have "\<not> unicode_isspace (List.last (str_lower U x))"
    using hd by (cases "lower_ucs4 U (rev x') d []" rule: rev_cases) (simp_all add: last)
  ultimately show ?thesis by (simp add: stripped_def)
qed

lemma norm_author_str_idem:
  assumes "lower_table_ok U"
  shows "norm_author_str U (Some (norm_author_str U a)) = norm_author_str U a"
proof -
  define s where "s = str_strip (case a of None \<Rightarrow> [] | Some s \<Rightarrow> s)"
  have "stripped (str_lower U s)"
    unfolding s_def by (rule stripped_lower [OF assms stripped_strip])
  then have "str_strip (str_lower U s) = str_lower U s" by (rule str_strip_stripped)
  then show ?thesis
    by (simp add: norm_author_str_def s_def [symmetric] str_lower_idem [OF assms])
qed

lemma payload_str_idem:
  assumes "lower_table_ok U"
  shows "payload_str U (Some (normalize_text U t)) (Some (normalize_author U a)) = payload_str U t a"
  by (simp add: payload_str_def norm_text_as_specified [symmetric]
      norm_author_as_specified [symmetric] norm_text_str_idem [OF assms]
      norm_author_str_idem [OF assms])

section \<open>The fragment of the character database\<close>

lemma ucd_fragment_ok: "lower_table_ok ucd_fragment"
  by (auto simp: lower_table_ok_def ucd_fragment_def unicode_isspace_def)

section \<open>The job state machine\<close>

lemma mark_finished_fst:
  "fst (mark_finished self success now st) =
     self\<lparr>finished_at := Some now,
          status := (if \<not> success then FAILED
                     else if errors_count self > 0 \<and> quotes_saved self > 0 then PARTIAL
                     else if quotes_saved self > 0 then SUCCESS else FAILED)\<rparr>"
  by (simp add: mark_finished_def Let_def)

lemma mark_finished_snd:
  "jobs st (job_id self) = Some row \<Longrightarrow>
   snd (mark_finished self success now st) =
     Inr (st\<lparr>jobs := (jobs st)(job_id self \<mapsto>
            row\<lparr>status := status (fst (mark_finished self success now st)),
                finished_at := Some now\<rparr>)\<rparr>)"
  by (simp add: mark_finished_def Let_def)

text \<open>
  \<^verbatim>\<open>mark_finished(success)\<close> sets the finish timestamp and derives the status from the
  counters of the instance it is called on: FAILED when \<open>success\<close> is false; otherwise
  FAILED when saved = 0 whatever errors is, SUCCESS when saved > 0 and errors = 0, PARTIAL
  when saved > 0 and errors > 0. When the job's row exists the save succeeds and the row
  carries that status and that timestamp, whatever counters the row itself has.
\<close>

lemma mark_finished_instance_status:
  "finished_at (fst (mark_finished self success now st)) = Some now
   \<and> (\<not> success \<longrightarrow> status (fst (mark_finished self success now st)) = FAILED)
   \<and> (success \<and> quotes_saved self = 0
        \<longrightarrow> status (fst (mark_finished self success now st)) = FAILED)
   \<and> (success \<and> quotes_saved self > 0 \<and> errors_count self = 0
        \<longrightarrow> status (fst (mark_finished self success now st)) = SUCCESS)
   \<and> (success \<and> quotes_saved self > 0 \<and> errors_count self > 0
        \<longrightarrow> status (fst (mark_finished self success now st)) = PARTIAL)
   \<and> (jobs st (job_id self) = Some row
        \<longrightarrow> (\<exists>st'. snd (mark_finished self success now st) = Inr st'
                   \<and> jobs st' (job_id self)
                       = Some (row\<lparr>status := status (fst (mark_finished self success now st)),
                                   finished_at := Some now\<rparr>)))"
  by (simp add: mark_finished_fst mark_finished_snd)

section \<open>What a candidate, a page and a run leave untouched\<close>

lemma concurrent_commit_frame [simp]:
  "jobs (concurrent_commit rows st) = jobs st"
  "sites (concurrent_commit rows st) = sites st"
  "authors (concurrent_commit rows st) = authors st"
  "scrape_errors (concurrent_commit rows st) = scrape_errors st"
  "logged (concurrent_commit rows st) = logged st"
  unfolding concurrent_commit_def by (induction rows arbitrary: st; simp)+

lemma concurrent_commit_Nil [simp]: "concurrent_commit [] st = st"
  by (simp add: concurrent_commit_def)

lemma concurrent_commit_hashes: "hashes st \<subseteq> hashes (concurrent_commit rows st)"
  unfolding concurrent_commit_def
proof (induction rows arbitrary: st)
  case Nil
  show ?case by simp
next
  case (Cons r rows)
  have "hashes st \<subseteq> hashes (if q_hash r \<in> hashes st then st else st\<lparr>quotes := quotes st @ [r]\<rparr>)"
    by (auto simp: hashes_def)
  with Cons [of "if q_hash r \<in> hashes st then st else st\<lparr>quotes := quotes st @ [r]\<rparr>"]
  show ?case by (simp del: fold_simps add: fold_Cons)
qed

lemma get_or_create_author_frame:
  "get_or_create_author name st = (a, st') \<Longrightarrow>
     jobs st' = jobs st \<and> sites st' = sites st \<and> quotes st' = quotes st
     \<and> scrape_errors st' = scrape_errors st \<and> logged st' = logged st"
  by (auto simp: get_or_create_author_def Let_def split: option.splits)

lemma get_or_create_author_hashes:
  "get_or_create_author name st = (a, st') \<Longrightarrow> hashes st' = hashes st"
  by (auto simp: hashes_def dest: get_or_create_author_frame)

lemma Quote_save_frame:
  "Quote_save q st = Inr (q', st') \<Longrightarrow>
     jobs st' = jobs st \<and> sites st' = sites st \<and> scrape_errors st' = scrape_errors st
     \<and> logged st' = logged st \<and> authors st' = authors st
     \<and> hashes st' = insert (hash q') (hashes st) \<and> hash q' \<notin> hashes st"
  by (auto simp: Quote_save_def Let_def hashes_def split: if_splits)

lemma candidate_try_frame:
  assumes "candidate_try W cfg job p url an i q st = r"
      and "st' = (case r of Inl (e, s) \<Rightarrow> s | Inr (c, s) \<Rightarrow> s)"
  shows "jobs st' = jobs st \<and> sites st' = sites st \<and> scrape_errors st' = scrape_errors st
         \<and> logged st' = logged st \<and> hashes st \<subseteq> hashes st'"
proof (cases "get_text q")
  case (Inl e)
  with assms show ?thesis by (auto simp: candidate_try_def)
next
  case gt: (Inr tx)
  show ?thesis
  proof (cases "resolve_author cfg an i q")
    case (Inl e)
    with assms gt show ?thesis by (auto simp: candidate_try_def)
  next
    case name: (Inr name)
    obtain auth st1 where a:
      "(if truthy name
        then (case get_or_create_author (or_empty name) st of (a, s) \<Rightarrow> (Some a, s))
        else (None, st)) = (auth, st1)"
      by (cases "(if truthy name
        then (case get_or_create_author (or_empty name) st of (a, s) \<Rightarrow> (Some a, s))
        else (None, st))") blast
    then have f1: "jobs st1 = jobs st \<and> sites st1 = sites st \<and> scrape_errors st1 = scrape_errors st
         \<and> logged st1 = logged st \<and> hashes st1 = hashes st"
      by (auto split: if_splits prod.splits
            dest: get_or_create_author_frame get_or_create_author_hashes)
    show ?thesis
    proof (cases "compute_quote_hash (Some tx) name \<in> hashes st1")
      case True
      with assms gt name a f1 show ?thesis
        by (auto simp: candidate_try_def Let_def)
    next
      case False
      let ?st2 = "concurrent_commit (other_writer W p i) st1"
      let ?q = "\<lparr>quote_text = tx, author = auth, site = site_id cfg, source_url = Some url,
                 hash = compute_quote_hash (Some tx) name, saved_by_job = Some (job_id job)\<rparr>"
      show ?thesis
      proof (cases "Quote_save ?q ?st2")
        case (Inl e)
        with assms gt name a f1 False show ?thesis
          using concurrent_commit_hashes [of st "other_writer W p i"]
          by (auto simp: candidate_try_def Let_def)
      next
        case (Inr qs)
        obtain q' st3 where qs: "qs = (q', st3)" by (cases qs)
        from Quote_save_frame [OF Inr [unfolded qs]]
        have "jobs st3 = jobs st \<and> sites st3 = sites st \<and> scrape_errors st3 = scrape_errors st
              \<and> logged st3 = logged st \<and> hashes ?st2 \<subseteq> hashes st3"
          using f1 by auto
        moreover have "hashes st \<subseteq> hashes ?st2"
          using concurrent_commit_hashes [of st1 "other_writer W p i"] f1 by simp
        ultimately show ?thesis
          using assms gt name a False Inr qs
          by (auto simp: candidate_try_def Let_def)
      qed
    qed
  qed
qed

lemma process_candidate_frame:
  assumes "process_candidate W cfg job p url an i q (l, st) = (l', st')"
  shows "jobs st' = jobs st \<and> sites st' = sites st \<and> hashes st \<subseteq> hashes st'
         \<and> next_url l' = next_url l \<and> fetched l' = fetched l
         \<and> saved l \<le> saved l' \<and> errors l \<le> errors l'"
proof (cases "candidate_try W cfg job p url an i q st")
  case (Inl x)
  obtain e s where x: "x = (e, s)" by (cases x)
  from candidate_try_frame [OF Inl, of s] x
  have "jobs s = jobs st \<and> sites s = sites st \<and> hashes st \<subseteq> hashes s" by simp
  with assms Inl x show ?thesis
    by (auto simp: process_candidate_def hashes_def)
next
  case (Inr x)
  obtain c s where x: "x = (c, s)" by (cases x)
  from candidate_try_frame [OF Inr, of s] x
  have "jobs s = jobs st \<and> sites s = sites st \<and> hashes st \<subseteq> hashes s" by simp
  with assms Inr x show ?thesis
    by (auto simp: process_candidate_def split: if_splits)
qed

lemma candidates_loop_frame:
  "candidates_loop W cfg job p url an i qs (l, st) = (l', st') \<Longrightarrow>
     jobs st' = jobs st \<and> sites st' = sites st \<and> hashes st \<subseteq> hashes st'
     \<and> next_url l' = next_url l \<and> fetched l' = fetched l
     \<and> saved l \<le> saved l' \<and> errors l \<le> errors l'"
proof (induction qs arbitrary: i l st)
  case Nil
  then show ?case by simp
next
  case (Cons q qs)
  obtain l1 st1 where p1: "process_candidate W cfg job p url an i q (l, st) = (l1, st1)"
    by (cases "process_candidate W cfg job p url an i q (l, st)")
  from Cons.prems have "candidates_loop W cfg job p url an (Suc i) qs (l1, st1) = (l', st')"
    by (simp add: p1)
  from Cons.IH [OF this] process_candidate_frame [OF p1]
  show ?case by auto
qed

text \<open>The ways one iteration of the page loop can end.\<close>

lemma scrape_page_cases [case_names stop network raise_early raise_increment raise_decide continue]:
  obtains
    (stop) "\<not> truthy (next_url l)" "scrape_page g W cfg job p l st = Break l st"
  | (network) e where "truthy (next_url l)" "requests_get W (or_empty (next_url l)) = Inl e"
      "scrape_page g W cfg job p l st =
         Break (l\<lparr>errors := errors l + 1\<rparr>)
           (st\<lparr>logged := logged st @ [Info_fetching (job_id job) (or_empty (next_url l))],
               scrape_errors := scrape_errors st @
                 [\<lparr>err_job = job_id job, err_url = Some (or_empty (next_url l)),
                   error_type = ''network'', message = str_exn e\<rparr>]\<rparr>)"
  | (raise_early) e resp where "truthy (next_url l)"
      "requests_get W (or_empty (next_url l)) = Inr resp"
      "scrape_page g W cfg job p l st =
         Raise e (l\<lparr>fetched := fetched l + 1,
                    pages_scraped := pages_scraped l @ [or_empty (next_url l)]\<rparr>)
           (st\<lparr>logged := logged st @ [Info_fetching (job_id job) (or_empty (next_url l))]\<rparr>)"
  | (raise_increment) e resp soup qn an l2 st2 where "truthy (next_url l)"
      "requests_get W (or_empty (next_url l)) = Inr resp" "BeautifulSoup W resp = Inr soup"
      "select soup (quote_selector cfg) = Inr qn"
      "(if author_selector cfg \<noteq> [] then select soup (author_selector cfg) else Inr []) = Inr an"
      "candidates_loop W cfg job p (or_empty (next_url l)) an 0 qn
         (l\<lparr>fetched := fetched l + 1,
            pages_scraped := pages_scraped l @ [or_empty (next_url l)]\<rparr>,
          st\<lparr>logged := logged st @ [Info_fetching (job_id job) (or_empty (next_url l))]\<rparr>)
        = (l2, st2)"
      "increment_counters job (fetched l2) (saved l2) (errors l2) st2 = Inl e"
      "scrape_page g W cfg job p l st = Raise e l2 st2"
  | (raise_decide) e resp soup qn an l2 st2 st3 where "truthy (next_url l)"
      "requests_get W (or_empty (next_url l)) = Inr resp" "BeautifulSoup W resp = Inr soup"
      "select soup (quote_selector cfg) = Inr qn"
      "(if author_selector cfg \<noteq> [] then select soup (author_selector cfg) else Inr []) = Inr an"
      "candidates_loop W cfg job p (or_empty (next_url l)) an 0 qn
         (l\<lparr>fetched := fetched l + 1,
            pages_scraped := pages_scraped l @ [or_empty (next_url l)]\<rparr>,
          st\<lparr>logged := logged st @ [Info_fetching (job_id job) (or_empty (next_url l))]\<rparr>)
        = (l2, st2)"
      "increment_counters job (fetched l2) (saved l2) (errors l2) st2 = Inr st3"
      "decide_next W cfg soup = Inl e"
      "scrape_page g W cfg job p l st =
         Raise e (l2\<lparr>fetched := 0, saved := 0, errors := 0, next_url := None\<rparr>) st3"
  | (continue) nu resp soup qn an l2 st2 st3 where "truthy (next_url l)"
      "requests_get W (or_empty (next_url l)) = Inr resp" "BeautifulSoup W resp = Inr soup"
      "select soup (quote_selector cfg) = Inr qn"
      "(if author_selector cfg \<noteq> [] then select soup (author_selector cfg) else Inr []) = Inr an"
      "candidates_loop W cfg job p (or_empty (next_url l)) an 0 qn
         (l\<lparr>fetched := fetched l + 1,
            pages_scraped := pages_scraped l @ [or_empty (next_url l)]\<rparr>,
          st\<lparr>logged := logged st @ [Info_fetching (job_id job) (or_empty (next_url l))]\<rparr>)
        = (l2, st2)"
      "increment_counters job (fetched l2) (saved l2) (errors l2) st2 = Inr st3"
      "decide_next W cfg soup = Inr nu"
      "scrape_page g W cfg job p l st =
         Continue (l2\<lparr>fetched := 0, saved := 0, errors := 0, next_url := g W nu\<rparr>) st3"
proof (cases "truthy (next_url l)")
  case False
  then show thesis using stop by (simp add: scrape_page_def)
next
  case t: True
  show thesis
  proof (cases "requests_get W (or_empty (next_url l))")
    case (Inl e)
    then show thesis using t network [of e] by (simp add: scrape_page_def Let_def)
  next
    case r: (Inr resp)
    show thesis
    proof (cases "BeautifulSoup W resp")
      case (Inl e)
      then show thesis using t r raise_early [of resp e] by (simp add: scrape_page_def Let_def)
    next
      case b: (Inr soup)
      show thesis
      proof (cases "select soup (quote_selector cfg)")
        case (Inl e)
        then show thesis
          using t r b raise_early [of resp e] by (simp add: scrape_page_def Let_def)
      next
        case q: (Inr qn)
        show thesis
        proof (cases "if author_selector cfg \<noteq> [] then select soup (author_selector cfg) else Inr []")
          case (Inl e)
          then show thesis
            using t r b q raise_early [of resp e] by (simp add: scrape_page_def Let_def)
        next
          case a: (Inr an)
          obtain l2 st2 where c:
            "candidates_loop W cfg job p (or_empty (next_url l)) an 0 qn
               (l\<lparr>fetched := fetched l + 1,
                  pages_scraped := pages_scraped l @ [or_empty (next_url l)]\<rparr>,
                st\<lparr>logged := logged st @ [Info_fetching (job_id job) (or_empty (next_url l))]\<rparr>)
              = (l2, st2)"
            by (cases "candidates_loop W cfg job p (or_empty (next_url l)) an 0 qn
               (l\<lparr>fetched := fetched l + 1,
                  pages_scraped := pages_scraped l @ [or_empty (next_url l)]\<rparr>,
                st\<lparr>logged := logged st @ [Info_fetching (job_id job) (or_empty (next_url l))]\<rparr>)")
          show thesis
          proof (cases "increment_counters job (fetched l2) (saved l2) (errors l2) st2")
            case (Inl e)
            then show thesis
              using t r b q a c raise_increment [of resp soup qn an l2 st2 e]
              by (simp add: scrape_page_def Let_def)
          next
            case i: (Inr st3)
            show thesis
            proof (cases "decide_next W cfg soup")
              case (Inl e)
              then show thesis
                using t r b q a c i raise_decide [of resp soup qn an l2 st2 st3 e]
                by (simp add: scrape_page_def Let_def)
            next
              case (Inr nu)
              then show thesis
                using t r b q a c i continue [of resp soup qn an l2 st2 st3 nu]
                by (simp add: scrape_page_def Let_def)
            qed
          qed
        qed
      qed
    qed
  qed
qed

section \<open>Counters only grow\<close>

lemma counters_le_refl [simp]: "counters_le r r"
  by (simp add: counters_le_def)

lemma jobs_mono_eq: "jobs st' = jobs st \<Longrightarrow> jobs_mono st st'"
  by (simp add: jobs_mono_def)

lemma jobs_mono_refl [simp]: "jobs_mono st st"
  by (simp add: jobs_mono_def)

lemma jobs_mono_trans: "jobs_mono a b \<Longrightarrow> jobs_mono b c \<Longrightarrow> jobs_mono a c"
proof -
  assume ab: "jobs_mono a b" and bc: "jobs_mono b c"
  show "jobs_mono a c"
    unfolding jobs_mono_def
  proof (intro allI impI)
    fix pk r
    assume "jobs a pk = Some r"
    with ab obtain r1 where r1: "jobs b pk = Some r1" "counters_le r r1"
      unfolding jobs_mono_def by blast
    with bc obtain r2 where r2: "jobs c pk = Some r2" "counters_le r1 r2"
      unfolding jobs_mono_def by blast
    from r1(2) r2(2) have "counters_le r r2"
      by (simp add: counters_le_def)
    with r2(1) show "\<exists>r'. jobs c pk = Some r' \<and> counters_le r r'" by blast
  qed
qed

lemma increment_counters_mono:
  "0 \<le> f \<Longrightarrow> 0 \<le> s \<Longrightarrow> 0 \<le> e \<Longrightarrow> increment_counters self f s e st = Inr st'
     \<Longrightarrow> jobs_mono st st'"
  by (auto simp: increment_counters_def jobs_mono_def counters_le_def split: option.splits)

lemma increment_counters_mono_locals:
  "nonneg l \<Longrightarrow> increment_counters self (fetched l) (saved l) (errors l) st = Inr st'
     \<Longrightarrow> jobs_mono st st'"
  by (rule increment_counters_mono [of "fetched l" "saved l" "errors l"])
    (simp_all add: nonneg_def)

lemma increment_counters_mono_fatal:
  "nonneg l \<Longrightarrow> increment_counters self (fetched l) (saved l) 1 st = Inr st'
     \<Longrightarrow> jobs_mono st st'"
  by (rule increment_counters_mono [of "fetched l" "saved l" 1])
    (simp_all add: nonneg_def)

lemma mark_running_mono: "snd (mark_running self now st) = Inr st' \<Longrightarrow> jobs_mono st st'"
  by (auto simp: mark_running_def Let_def jobs_mono_def counters_le_def split: option.splits)

lemma mark_finished_mono: "snd (mark_finished self success now st) = Inr st' \<Longrightarrow> jobs_mono st st'"
  by (auto simp: mark_finished_def Let_def jobs_mono_def counters_le_def split: option.splits)

lemma scrape_page_mono:
  assumes "nonneg l"
  shows "nonneg (step_locals (scrape_page g W cfg job p l st))
         \<and> jobs_mono st (step_db (scrape_page g W cfg job p l st))"
proof (cases rule: scrape_page_cases [where g = g and W = W and cfg = cfg and job = job
        and p = p and l = l and st = st])
  case stop
  with assms show ?thesis by (simp add: step_locals_def step_db_def)
next
  case (network e)
  with assms show ?thesis
    by (simp add: step_locals_def step_db_def nonneg_def jobs_mono_eq)
next
  case (raise_early e resp)
  with assms show ?thesis
    by (simp add: step_locals_def step_db_def nonneg_def jobs_mono_eq)
next
  case (raise_increment e resp soup qn an l2 st2)
  from candidates_loop_frame [OF raise_increment(6)] assms
  have "nonneg l2" "jobs st2 = jobs st" by (auto simp: nonneg_def)
  with raise_increment(8) show ?thesis
    by (simp add: step_locals_def step_db_def jobs_mono_eq)
next
  case (raise_decide e resp soup qn an l2 st2 st3)
  from candidates_loop_frame [OF raise_decide(6)] assms
  have n2: "nonneg l2" and j2: "jobs st2 = jobs st" by (auto simp: nonneg_def)
  from n2 raise_decide(7) have "jobs_mono st2 st3"
    by (rule increment_counters_mono_locals)
  with j2 have "jobs_mono st st3" by (simp add: jobs_mono_def)
  with raise_decide(9) show ?thesis
    by (simp add: step_locals_def step_db_def nonneg_def)
next
  case (continue nu resp soup qn an l2 st2 st3)
  from candidates_loop_frame [OF continue(6)] assms
  have n2: "nonneg l2" and j2: "jobs st2 = jobs st" by (auto simp: nonneg_def)
  from n2 continue(7) have "jobs_mono st2 st3"
    by (rule increment_counters_mono_locals)
  with j2 have "jobs_mono st st3" by (simp add: jobs_mono_def)
  with continue(9) show ?thesis
    by (simp add: step_locals_def step_db_def nonneg_def)
qed

lemma page_loop_mono:
  "nonneg l \<Longrightarrow>
     nonneg (loop_locals (page_loop g W cfg job p n l st))
     \<and> jobs_mono st (loop_db (page_loop g W cfg job p n l st))"
proof (induction n arbitrary: p l st)
  case 0
  then show ?case by (simp add: loop_locals_def loop_db_def)
next
  case (Suc n)
  from scrape_page_mono [OF Suc.prems, where g = g and W = W and cfg = cfg and job = job
      and p = p and st = st]
  have sp: "nonneg (step_locals (scrape_page g W cfg job p l st))"
    "jobs_mono st (step_db (scrape_page g W cfg job p l st))" by simp_all
  show ?case
  proof (cases "scrape_page g W cfg job p l st")
    case (Continue l' st')
    with sp have n: "nonneg l'" and m: "jobs_mono st st'"
      by (simp_all add: step_locals_def step_db_def)
    from Suc.IH [OF n, of "Suc p" st']
    have "nonneg (loop_locals (page_loop g W cfg job (Suc p) n l' st'))"
      and "jobs_mono st' (loop_db (page_loop g W cfg job (Suc p) n l' st'))" by simp_all
    with jobs_mono_trans [OF m] Continue show ?thesis by simp
  next
    case (Break l' st')
    with sp show ?thesis
      by (simp add: step_locals_def step_db_def loop_locals_def loop_db_def)
  next
    case (Raise e l' st')
    with sp show ?thesis
      by (simp add: step_locals_def step_db_def loop_locals_def loop_db_def)
  qed
qed

lemma nonneg_locals0 [simp]: "nonneg (locals0\<lparr>next_url := u\<rparr>)" "nonneg locals0"
  by (simp_all add: nonneg_def locals0_def)

lemma scrape_try_mono:
  "(case scrape_try g W cfg job st of
      Inl (e, l, st') \<Rightarrow> nonneg l \<and> jobs_mono st st'
    | Inr st' \<Rightarrow> jobs_mono st st')"
proof (cases "urljoin W (base_url cfg) (or_default (start_path cfg) ''/'')")
  case (Inl e)
  then show ?thesis by (simp add: scrape_try_def)
next
  case u: (Inr start_url)
  let ?r = "page_loop g W cfg job 0 (max_pages cfg) (locals0\<lparr>next_url := Some start_url\<rparr>) st"
  from page_loop_mono [where l = "locals0\<lparr>next_url := Some start_url\<rparr>" and g = g and W = W
      and cfg = cfg and job = job and p = 0 and n = "max_pages cfg" and st = st]
  have pl: "nonneg (loop_locals ?r)" "jobs_mono st (loop_db ?r)" by simp_all
  show ?thesis
  proof (cases ?r)
    case (Inl x)
    with pl u show ?thesis
      by (auto simp: scrape_try_def loop_locals_def loop_db_def)
  next
    case (Inr x)
    obtain l st2 where x: "x = (l, st2)" by (cases x)
    with pl Inr have n: "nonneg l" and m: "jobs_mono st st2"
      by (simp_all add: loop_locals_def loop_db_def)
    show ?thesis
    proof (cases "increment_counters job (fetched l) (saved l) (errors l) st2")
      case (Inl e)
      with u Inr x n m show ?thesis by (simp add: scrape_try_def)
    next
      case i: (Inr st3)
      from n i have m3: "jobs_mono st2 st3"
        by (rule increment_counters_mono_locals)
      show ?thesis
      proof (cases "snd (mark_finished job True (now_finished W) st3)")
        case (Inl e)
        with u Inr x i n jobs_mono_trans [OF m m3] show ?thesis
          by (auto simp: scrape_try_def split: prod.splits)
      next
        case f: (Inr st4)
        from mark_finished_mono [OF f] have "jobs_mono st3 st4" .
        with jobs_mono_trans [OF m m3] have "jobs_mono st st4" by (rule jobs_mono_trans)
        then have "jobs_mono st (st4\<lparr>logged := logged st4 @ [Info_finished (job_id job)]\<rparr>)"
          by (simp add: jobs_mono_def)
        with u Inr x i f show ?thesis
          by (auto simp: scrape_try_def split: prod.splits)
      qed
    qed
  qed
qed

lemma fatal_handler_mono:
  assumes "nonneg l"
  shows "jobs_mono st (snd (fatal_handler W job fatal l st))"
proof -
  let ?st1 = "st\<lparr>scrape_errors := scrape_errors st @
                    [\<lparr>err_job = job_id job, err_url = None, error_type = ''fatal'',
                      message = str_exn fatal\<rparr>]\<rparr>"
  have m1: "jobs_mono st ?st1" by (simp add: jobs_mono_def)
  show ?thesis
  proof (cases "increment_counters job (fetched l) (saved l) 1 ?st1")
    case (Inl e)
    with m1 show ?thesis by (simp add: fatal_handler_def Let_def)
  next
    case i: (Inr st2)
    from assms i have m2: "jobs_mono ?st1 st2"
      by (rule increment_counters_mono_fatal)
    with m1 have m12: "jobs_mono st st2" by (rule jobs_mono_trans)
    show ?thesis
    proof (cases "snd (mark_finished job False (now_finished W) st2)")
      case (Inl e)
      with i m12 show ?thesis
        by (auto simp: fatal_handler_def Let_def split: prod.splits)
    next
      case f: (Inr st3)
      from m12 mark_finished_mono [OF f] have "jobs_mono st st3"
        by (rule jobs_mono_trans)
      then have "jobs_mono st (st3\<lparr>logged := logged st3 @ [Exception_fatal (job_id job)]\<rparr>)"
        by (simp add: jobs_mono_def)
      with i f show ?thesis
        by (auto simp: fatal_handler_def Let_def split: prod.splits)
    qed
  qed
qed

lemma scrape_begin_mono:
  "scrape_begin W pk st = Inl (e, st0) \<or> scrape_begin W pk st = Inr (job, cfg, st0)
     \<Longrightarrow> jobs_mono st st0"
proof -
  assume r: "scrape_begin W pk st = Inl (e, st0) \<or> scrape_begin W pk st = Inr (job, cfg, st0)"
  let ?st0 = "st\<lparr>logged := logged st @ [Info_start pk]\<rparr>"
  have m0: "jobs_mono st ?st0" by (simp add: jobs_mono_def)
  show ?thesis
  proof (cases "load_job ?st0 pk")
    case (Inl e')
    with r m0 show ?thesis by (auto simp: scrape_begin_def Let_def)
  next
    case (Inr x)
    obtain job0 cfg0 where x: "x = (job0, cfg0)" by (cases x)
    obtain job1 r1 where mr: "mark_running job0 (now_started W) ?st0 = (job1, r1)"
      by (cases "mark_running job0 (now_started W) ?st0")
    show ?thesis
    proof (cases r1)
      case (Inl e')
      with r Inr x mr m0 show ?thesis by (auto simp: scrape_begin_def Let_def)
    next
      case r1: (Inr st1)
      from mr r1 have "snd (mark_running job0 (now_started W) ?st0) = Inr st1" by simp
      from m0 mark_running_mono [OF this] have "jobs_mono st st1"
        by (rule jobs_mono_trans)
      with r Inr x mr r1 show ?thesis by (auto simp: scrape_begin_def Let_def)
    qed
  qed
qed

lemma scrape_site_with_mono: "jobs_mono st (snd (scrape_site_with g W pk st))"
proof (cases "scrape_begin W pk st")
  case (Inl x)
  obtain e st0 where x: "x = (e, st0)" by (cases x)
  with Inl scrape_begin_mono [of W pk st e st0] show ?thesis
    by (simp add: scrape_site_with_def)
next
  case (Inr x)
  obtain job cfg st1 where x: "x = (job, cfg, st1)" by (cases x)
  with Inr scrape_begin_mono [where W = W and pk = pk and st = st and job = job and cfg = cfg
      and ?st0.0 = st1]
  have m1: "jobs_mono st st1" by simp
  show ?thesis
  proof (cases "scrape_try g W cfg job st1")
    case ok: (Inr st')
    with scrape_try_mono [where g = g and W = W and cfg = cfg and job = job and st = st1]
    have "jobs_mono st1 st'" by simp
    with m1 have "jobs_mono st st'" by (rule jobs_mono_trans)
    with Inr x ok show ?thesis by (simp add: scrape_site_with_def)
  next
    case (Inl y)
    obtain e l st' where y: "y = (e, l, st')" by (cases y)
    with scrape_try_mono [where g = g and W = W and cfg = cfg and job = job and st = st1] Inl
    have n: "nonneg l" and m2: "jobs_mono st1 st'" by simp_all
    from jobs_mono_trans [OF m1 m2]
      fatal_handler_mono [OF n, where st = st' and W = W and job = job and fatal = e]
    have "jobs_mono st (snd (fatal_handler W job e l st'))"
      by (rule jobs_mono_trans)
    with Inr x Inl y show ?thesis by (simp add: scrape_site_with_def)
  qed
qed

lemma scrape_begin_ok:
  "jobs st jid = Some j \<Longrightarrow> sites st (job_site j) = Some c \<Longrightarrow>
   scrape_begin W jid st =
     Inr (j\<lparr>job_id := jid, status := RUNNING, started_at := Some (now_started W)\<rparr>,
          c\<lparr>site_id := job_site j\<rparr>,
          st\<lparr>logged := logged st @ [Info_start jid],
             jobs := (jobs st)(jid \<mapsto> j\<lparr>status := RUNNING, started_at := Some (now_started W)\<rparr>)\<rparr>)"
  by (simp add: scrape_begin_def load_job_def mark_running_def Let_def)


section \<open>Exceptions that leave the page loop\<close>

lemma jobs_mono_present: "jobs_mono st st' \<Longrightarrow> jobs st pk \<noteq> None \<Longrightarrow> jobs st' pk \<noteq> None"
  by (auto simp: jobs_mono_def)

lemma increment_counters_present:
  "jobs st (job_id job) \<noteq> None \<Longrightarrow> increment_counters job f s e st \<noteq> Inl x"
  by (auto simp: increment_counters_def split: option.splits)

lemma mark_finished_present:
  "jobs st (job_id job) \<noteq> None \<Longrightarrow> snd (mark_finished job b t st) \<noteq> Inl x"
  by (auto simp: mark_finished_def Let_def split: option.splits)

text \<open>Outside the per-candidate guard an exception leaves no page errors or saves pending.\<close>

lemma scrape_page_raise:
  assumes "zeroed l" and "jobs st (job_id job) \<noteq> None"
  shows "(case scrape_page g W cfg job p l st of
            Raise e l' st' \<Rightarrow> errors l' = 0 \<and> saved l' = 0
          | Continue l' st' \<Rightarrow> zeroed l'
          | Break l' st' \<Rightarrow> True)"
proof (cases rule: scrape_page_cases [where g = g and W = W and cfg = cfg and job = job
        and p = p and l = l and st = st])
  case stop
  then show ?thesis by simp
next
  case (network e)
  then show ?thesis by simp
next
  case (raise_early e resp)
  with assms show ?thesis by (simp add: zeroed_def)
next
  case (raise_increment e resp soup qn an l2 st2)
  from candidates_loop_frame [OF raise_increment(6)] assms(2)
  have "jobs st2 (job_id job) \<noteq> None" by simp
  with raise_increment(7) show ?thesis
    using increment_counters_present by blast
next
  case (raise_decide e resp soup qn an l2 st2 st3)
  then show ?thesis by simp
next
  case (continue nu resp soup qn an l2 st2 st3)
  then show ?thesis by (simp add: zeroed_def)
qed

lemma page_loop_raise:
  "zeroed l \<Longrightarrow> jobs st (job_id job) \<noteq> None \<Longrightarrow>
     page_loop g W cfg job p n l st = Inl (e, l', st') \<Longrightarrow> errors l' = 0 \<and> saved l' = 0"
proof (induction n arbitrary: p l st)
  case 0
  then show ?case by simp
next
  case (Suc n)
  from scrape_page_raise [OF Suc.prems(1,2), where g = g and W = W and cfg = cfg and p = p]
  have sp: "(case scrape_page g W cfg job p l st of
            Raise e l' st' \<Rightarrow> errors l' = 0 \<and> saved l' = 0
          | Continue l' st' \<Rightarrow> zeroed l'
          | Break l' st' \<Rightarrow> True)" .
  from scrape_page_mono [where l = l and g = g and W = W and cfg = cfg and job = job and p = p
      and st = st] Suc.prems(1)
  have m: "jobs_mono st (step_db (scrape_page g W cfg job p l st))"
    by (simp add: zeroed_def nonneg_def)
  show ?case
  proof (cases "scrape_page g W cfg job p l st")
    case (Continue l1 st1)
    with sp have z: "zeroed l1" by simp
    from m Continue Suc.prems(2) have j: "jobs st1 (job_id job) \<noteq> None"
      by (auto simp: step_db_def dest: jobs_mono_present)
    from Suc.prems(3) Continue have "page_loop g W cfg job (Suc p) n l1 st1 = Inl (e, l', st')"
      by simp
    from Suc.IH [OF z j this] show ?thesis .
  next
    case (Break l1 st1)
    with Suc.prems(3) show ?thesis by simp
  next
    case (Raise e1 l1 st1)
    with Suc.prems(3) sp show ?thesis by simp
  qed
qed

lemma scrape_try_raise:
  assumes "jobs st (job_id job) \<noteq> None"
      and "scrape_try g W cfg job st = Inl (e, l, st')"
  shows "errors l = 0 \<and> saved l = 0 \<and> jobs st' (job_id job) \<noteq> None"
proof -
  from scrape_try_mono [where g = g and W = W and cfg = cfg and job = job and st = st] assms
  have "jobs st' (job_id job) \<noteq> None"
    by (auto dest: jobs_mono_present)
  moreover have "errors l = 0 \<and> saved l = 0"
  proof (cases "urljoin W (base_url cfg) (or_default (start_path cfg) ''/'')")
    case (Inl e')
    with assms(2) show ?thesis by (auto simp: scrape_try_def locals0_def)
  next
    case u: (Inr start_url)
    let ?r = "page_loop g W cfg job 0 (max_pages cfg) (locals0\<lparr>next_url := Some start_url\<rparr>) st"
    have z: "zeroed (locals0\<lparr>next_url := Some start_url\<rparr>)"
      by (simp add: zeroed_def locals0_def)
    show ?thesis
    proof (cases ?r)
      case (Inl x)
      with assms(2) u have "?r = Inl (e, l, st')" by (simp add: scrape_try_def)
      from page_loop_raise [OF z assms(1) this] show ?thesis .
    next
      case (Inr x)
      obtain l2 st2 where x: "x = (l2, st2)" by (cases x)
      from page_loop_mono [where l = "locals0\<lparr>next_url := Some start_url\<rparr>" and g = g and W = W
          and cfg = cfg and job = job and p = 0 and n = "max_pages cfg" and st = st] Inr x
      have "jobs_mono st st2" by (simp add: loop_db_def)
      then have j2: "jobs st2 (job_id job) \<noteq> None"
        using assms(1) by (rule jobs_mono_present)
      obtain st3 where i: "increment_counters job (fetched l2) (saved l2) (errors l2) st2 = Inr st3"
        using increment_counters_present [OF j2]
        by (cases "increment_counters job (fetched l2) (saved l2) (errors l2) st2") auto
      have "jobs st3 (job_id job) \<noteq> None"
        using i j2 by (auto simp: increment_counters_def split: option.splits)
      then obtain st4 where f: "snd (mark_finished job True (now_finished W) st3) = Inr st4"
        using mark_finished_present
        by (cases "snd (mark_finished job True (now_finished W) st3)") auto
      with assms(2) u Inr x i show ?thesis
        by (auto simp: scrape_try_def split: prod.splits)
    qed
  qed
  ultimately show ?thesis by simp
qed

lemma scrape_begin_job:
  "scrape_begin W jid st = Inr (job, cfg, st1) \<Longrightarrow> job_id job = jid \<and> jobs st1 jid \<noteq> None"
  by (auto simp: scrape_begin_def load_job_def mark_running_def Let_def
      split: option.splits sum.splits prod.splits)


section \<open>The same-page guard and self-linking pages\<close>

lemma same_page_guard_noop: "same_page_guard W nu = nu"
  by (simp add: same_page_guard_def)

lemma same_page_guard_eq: "same_page_guard = no_guard"
  by (rule ext)+ (simp add: same_page_guard_def no_guard_def)

lemma scrape_page_self_link:
  assumes "requests_get W u = Inr resp" and "BeautifulSoup W resp = Inr soup"
      and "select soup (quote_selector cfg) = Inr qn"
      and "(if author_selector cfg \<noteq> [] then select soup (author_selector cfg) else Inr []) = Inr an"
      and "decide_next W cfg soup = Inr (Some u)" and "u \<noteq> []"
      and "zeroed l" and "next_url l = Some u" and "jobs st (job_id job) = Some r"
  shows "\<exists>l' st' r'. scrape_page g W cfg job p l st = Continue l' st' \<and> zeroed l'
           \<and> next_url l' = g W (Some u) \<and> jobs st' (job_id job) = Some r'
           \<and> quotes_fetched r' = quotes_fetched r + 1"
proof -
  let ?l1 = "l\<lparr>fetched := fetched l + 1, pages_scraped := pages_scraped l @ [u]\<rparr>"
  let ?st0 = "st\<lparr>logged := logged st @ [Info_fetching (job_id job) u]\<rparr>"
  obtain l2 st2 where c: "candidates_loop W cfg job p u an 0 qn (?l1, ?st0) = (l2, st2)"
    by (cases "candidates_loop W cfg job p u an 0 qn (?l1, ?st0)")
  from candidates_loop_frame [OF c] assms(7,9)
  have f: "jobs st2 (job_id job) = Some r" "fetched l2 = 1"
    by (simp_all add: zeroed_def)
  show ?thesis
    using assms c f
    by (simp add: scrape_page_def Let_def truthy_def or_empty_def increment_counters_def
        zeroed_def)
qed

lemma page_loop_self_link:
  assumes "requests_get W u = Inr resp" and "BeautifulSoup W resp = Inr soup"
      and "select soup (quote_selector cfg) = Inr qn"
      and "(if author_selector cfg \<noteq> [] then select soup (author_selector cfg) else Inr []) = Inr an"
      and "decide_next W cfg soup = Inr (Some u)" and "u \<noteq> []"
      and "g W (Some u) = Some u"
  shows "zeroed l \<Longrightarrow> next_url l = Some u \<Longrightarrow> jobs st (job_id job) = Some r \<Longrightarrow>
         \<exists>l' st' r'. page_loop g W cfg job p n l st = Inr (l', st') \<and> zeroed l'
           \<and> jobs st' (job_id job) = Some r' \<and> quotes_fetched r' = quotes_fetched r + int n"
proof (induction n arbitrary: p l st r)
  case 0
  then show ?case by simp
next
  case (Suc n)
  from scrape_page_self_link [OF assms(1-6) Suc.prems, of g p]
  obtain l1 st1 r1 where s: "scrape_page g W cfg job p l st = Continue l1 st1" "zeroed l1"
    "next_url l1 = g W (Some u)" "jobs st1 (job_id job) = Some r1"
    "quotes_fetched r1 = quotes_fetched r + 1"
    by blast
  from s(3) assms(7) have n1: "next_url l1 = Some u" by simp
  from Suc.IH [OF s(2) n1 s(4), of "Suc p"]
  obtain l' st' r' where "page_loop g W cfg job (Suc p) n l1 st1 = Inr (l', st')" "zeroed l'"
    "jobs st' (job_id job) = Some r'" "quotes_fetched r' = quotes_fetched r1 + int n"
    by blast
  with s(1,5) show ?case by simp
qed


section \<open>Another writer on the same store\<close>

lemma concurrent_commit_covers:
  "h \<in> q_hash ` set rows \<Longrightarrow> h \<in> hashes (concurrent_commit rows st)"
proof (induction rows arbitrary: st)
  case Nil
  then show ?case by simp
next
  case (Cons r rows)
  let ?s = "if q_hash r \<in> hashes st then st else st\<lparr>quotes := quotes st @ [r]\<rparr>"
  have step: "concurrent_commit (r # rows) st = concurrent_commit rows ?s"
    by (simp add: concurrent_commit_def)
  show ?case
  proof (cases "h = q_hash r")
    case True
    then have "h \<in> hashes ?s" by (auto simp: hashes_def)
    with concurrent_commit_hashes [of ?s rows] step show ?thesis by auto
  next
    case False
    with Cons.prems have "h \<in> q_hash ` set rows" by auto
    from Cons.IH [OF this, of ?s] step show ?thesis by simp
  qed
qed


section \<open>How a run extends the quote table\<close>

lemma run_ext_refl [simp]: "run_ext W st st"
  by (simp add: run_ext_def)

lemma run_ext_trans:
  assumes ab: "run_ext W a b" and bc: "run_ext W b c"
  shows "run_ext W a c"
  unfolding run_ext_def
proof (intro conjI allI impI ballI)
  show "sites c = sites a" using ab bc by (simp add: run_ext_def)
next
  fix pk r
  assume "jobs a pk = Some r"
  with ab obtain r1 where r1: "jobs b pk = Some r1" "job_site r1 = job_site r"
    unfolding run_ext_def by blast
  with bc obtain r2 where "jobs c pk = Some r2" "job_site r2 = job_site r1"
    unfolding run_ext_def by blast
  with r1 show "\<exists>r'. jobs c pk = Some r' \<and> job_site r' = job_site r" by simp
next
  show "hashes a \<subseteq> hashes c" using ab bc unfolding run_ext_def by blast
next
  assume "distinct (map q_hash (quotes a))"
  then show "distinct (map q_hash (quotes c))" using ab bc unfolding run_ext_def by blast
next
  fix r
  assume "r \<in> set (quotes c)"
  with bc have "r \<in> set (quotes b) \<or> (\<exists>p i. r \<in> set (other_writer W p i)) \<or> hex64 (q_hash r)"
    unfolding run_ext_def by blast
  with ab show "r \<in> set (quotes a) \<or> (\<exists>p i. r \<in> set (other_writer W p i)) \<or> hex64 (q_hash r)"
    unfolding run_ext_def by blast
qed

lemma run_ext_jobs:
  "sites st' = sites st \<Longrightarrow> quotes st' = quotes st \<Longrightarrow>
   (\<And>pk r. jobs st pk = Some r \<Longrightarrow> \<exists>r'. jobs st' pk = Some r' \<and> job_site r' = job_site r)
     \<Longrightarrow> run_ext W st st'"
  by (simp add: run_ext_def hashes_def)

lemma run_ext_same:
  "sites st' = sites st \<Longrightarrow> jobs st' = jobs st \<Longrightarrow> quotes st' = quotes st \<Longrightarrow> run_ext W st st'"
  by (rule run_ext_jobs) simp_all

lemma increment_counters_ext: "increment_counters self f s e st = Inr st' \<Longrightarrow> run_ext W st st'"
  by (rule run_ext_jobs) (auto simp: increment_counters_def split: option.splits)

lemma mark_running_ext: "snd (mark_running self now st) = Inr st' \<Longrightarrow> run_ext W st st'"
  by (rule run_ext_jobs) (auto simp: mark_running_def Let_def split: option.splits)

lemma mark_finished_ext: "snd (mark_finished self b now st) = Inr st' \<Longrightarrow> run_ext W st st'"
  by (rule run_ext_jobs) (auto simp: mark_finished_def Let_def split: option.splits)

lemma insert_row_ext:
  "q_hash r \<notin> hashes st \<Longrightarrow> (\<exists>p i. r \<in> set (other_writer W p i)) \<or> hex64 (q_hash r)
     \<Longrightarrow> run_ext W st (st\<lparr>quotes := quotes st @ [r]\<rparr>)"
  by (auto simp: run_ext_def hashes_def)

lemma concurrent_commit_ext:
  "set rows \<subseteq> set (other_writer W p i) \<Longrightarrow> run_ext W st (concurrent_commit rows st)"
proof (induction rows arbitrary: st)
  case Nil
  show ?case by simp
next
  case (Cons r rows)
  let ?s = "if q_hash r \<in> hashes st then st else st\<lparr>quotes := quotes st @ [r]\<rparr>"
  have step: "concurrent_commit (r # rows) st = concurrent_commit rows ?s"
    by (simp add: concurrent_commit_def)
  have "r \<in> set (other_writer W p i)" using Cons.prems by simp
  then have "run_ext W st ?s"
    by (auto intro: insert_row_ext)
  moreover have "run_ext W ?s (concurrent_commit rows ?s)"
    using Cons.prems by (intro Cons.IH) simp
  ultimately show ?case unfolding step by (rule run_ext_trans)
qed

lemma Quote_save_ext:
  "Quote_save q st = Inr (q', st') \<Longrightarrow> hex64 (hash q') \<Longrightarrow> run_ext W st st'"
  by (auto simp: Quote_save_def Let_def split: if_splits intro!: insert_row_ext)

lemma Quote_save_hash:
  "Quote_save q st = Inr (q', st') \<Longrightarrow>
     hash q' = (if hash q = []
                then compute_quote_hash (Some (quote_text q))
                       (Some (case author q of None \<Rightarrow> [] | Some a \<Rightarrow> author_name a))
                else hash q)"
  by (auto simp: Quote_save_def Let_def split: if_splits)

lemma candidate_try_ext: "run_ext W st (try_db (candidate_try W cfg job p url an i q st))"
proof (cases "get_text q")
  case (Inl e)
  then show ?thesis by (simp add: candidate_try_def try_db_def)
next
  case gt: (Inr tx)
  show ?thesis
  proof (cases "resolve_author cfg an i q")
    case (Inl e)
    with gt show ?thesis by (simp add: candidate_try_def try_db_def)
  next
    case name: (Inr name)
    obtain auth st1 where a:
      "(if truthy name
        then (case get_or_create_author (or_empty name) st of (a, s) \<Rightarrow> (Some a, s))
        else (None, st)) = (auth, st1)"
      by (cases "(if truthy name
        then (case get_or_create_author (or_empty name) st of (a, s) \<Rightarrow> (Some a, s))
        else (None, st))") blast
    then have e1: "run_ext W st st1"
      by (auto split: if_splits prod.splits dest!: get_or_create_author_frame
          intro: run_ext_same)
    let ?h = "compute_quote_hash (Some tx) name"
    show ?thesis
    proof (cases "?h \<in> hashes st1")
      case True
      with gt name a e1 show ?thesis
        by (simp add: candidate_try_def try_db_def Let_def)
    next
      case False
      let ?rows = "other_writer W p i"
      let ?q = "\<lparr>quote_text = tx, author = auth, site = site_id cfg, source_url = Some url,
                 hash = ?h, saved_by_job = Some (job_id job)\<rparr>"
      show ?thesis
      proof (cases "Quote_save ?q (concurrent_commit ?rows st1)")
        case (Inl e)
        have "run_ext W st (concurrent_commit ?rows st)"
          by (rule concurrent_commit_ext [where p = p and i = i]) simp
        with gt name a False Inl show ?thesis
          by (simp add: candidate_try_def try_db_def Let_def)
      next
        case (Inr qs)
        obtain q' st3 where qs: "qs = (q', st3)" by (cases qs)
        have "hash q' = ?h"
          using Quote_save_hash [OF Inr [unfolded qs]] by simp
        then have "hex64 (hash q')" by simp
        with Inr qs have "run_ext W (concurrent_commit ?rows st1) st3"
          by (auto intro: Quote_save_ext)
        moreover have "run_ext W st1 (concurrent_commit ?rows st1)"
          by (rule concurrent_commit_ext [where p = p and i = i]) simp
        ultimately have "run_ext W st st3"
          using e1 by (blast intro: run_ext_trans)
        with gt name a False Inr qs show ?thesis
          by (simp add: candidate_try_def try_db_def Let_def)
      qed
    qed
  qed
qed

lemma process_candidate_ext:
  assumes "process_candidate W cfg job p url an i q (l, st) = (l', st')"
  shows "run_ext W st st'"
proof -
  let ?r = "candidate_try W cfg job p url an i q st"
  have e: "run_ext W st (try_db ?r)" by (rule candidate_try_ext)
  show ?thesis
  proof (cases ?r)
    case (Inl x)
    obtain ex s where x: "x = (ex, s)" by (cases x)
    from e Inl x have "run_ext W st s" by (simp add: try_db_def)
    moreover have "run_ext W s st'"
      using assms Inl x by (auto simp: process_candidate_def intro!: run_ext_same)
    ultimately show ?thesis by (rule run_ext_trans)
  next
    case (Inr x)
    obtain c s where x: "x = (c, s)" by (cases x)
    from e Inr x have "run_ext W st s" by (simp add: try_db_def)
    with assms Inr x show ?thesis
      by (auto simp: process_candidate_def split: if_splits)
  qed
qed

lemma candidates_loop_ext:
  "candidates_loop W cfg job p url an i qs (l, st) = (l', st') \<Longrightarrow> run_ext W st st'"
proof (induction qs arbitrary: i l st)
  case Nil
  then show ?case by simp
next
  case (Cons q qs)
  obtain l1 st1 where p1: "process_candidate W cfg job p url an i q (l, st) = (l1, st1)"
    by (cases "process_candidate W cfg job p url an i q (l, st)")
  from Cons.prems have "candidates_loop W cfg job p url an (Suc i) qs (l1, st1) = (l', st')"
    by (simp add: p1)
  from process_candidate_ext [OF p1] Cons.IH [OF this] show ?case
    by (rule run_ext_trans)
qed

lemma scrape_page_ext: "run_ext W st (step_db (scrape_page g W cfg job p l st))"
proof (cases rule: scrape_page_cases [where g = g and W = W and cfg = cfg and job = job
        and p = p and l = l and st = st])
  case stop
  then show ?thesis by (simp add: step_db_def)
next
  case (network e)
  then show ?thesis by (simp add: step_db_def run_ext_same)
next
  case (raise_early e resp)
  then show ?thesis by (simp add: step_db_def run_ext_same)
next
  case (raise_increment e resp soup qn an l2 st2)
  have "run_ext W st (st\<lparr>logged := logged st @ [Info_fetching (job_id job) (or_empty (next_url l))]\<rparr>)"
    by (simp add: run_ext_same)
  from this candidates_loop_ext [OF raise_increment(6)] have "run_ext W st st2"
    by (rule run_ext_trans)
  with raise_increment(8) show ?thesis by (simp add: step_db_def)
next
  case (raise_decide e resp soup qn an l2 st2 st3)
  have "run_ext W st (st\<lparr>logged := logged st @ [Info_fetching (job_id job) (or_empty (next_url l))]\<rparr>)"
    by (simp add: run_ext_same)
  from this candidates_loop_ext [OF raise_decide(6)] have "run_ext W st st2"
    by (rule run_ext_trans)
  from this increment_counters_ext [OF raise_decide(7)] have "run_ext W st st3"
    by (rule run_ext_trans)
  with raise_decide(9) show ?thesis by (simp add: step_db_def)
next
  case (continue nu resp soup qn an l2 st2 st3)
  have "run_ext W st (st\<lparr>logged := logged st @ [Info_fetching (job_id job) (or_empty (next_url l))]\<rparr>)"
    by (simp add: run_ext_same)
  from this candidates_loop_ext [OF continue(6)] have "run_ext W st st2"
    by (rule run_ext_trans)
  from this increment_counters_ext [OF continue(7)] have "run_ext W st st3"
    by (rule run_ext_trans)
  with continue(9) show ?thesis by (simp add: step_db_def)
qed

lemma page_loop_ext: "run_ext W st (loop_db (page_loop g W cfg job p n l st))"
proof (induction n arbitrary: p l st)
  case 0
  show ?case by (simp add: loop_db_def)
next
  case (Suc n)
  have sp: "run_ext W st (step_db (scrape_page g W cfg job p l st))"
    by (rule scrape_page_ext)
  show ?case
  proof (cases "scrape_page g W cfg job p l st")
    case (Continue l' st')
    with sp have "run_ext W st st'" by (simp add: step_db_def)
    from this Suc.IH [of st' "Suc p" l'] have
      "run_ext W st (loop_db (page_loop g W cfg job (Suc p) n l' st'))"
      by (rule run_ext_trans)
    with Continue show ?thesis by simp
  next
    case (Break l' st')
    with sp show ?thesis by (simp add: step_db_def loop_db_def)
  next
    case (Raise e l' st')
    with sp show ?thesis by (simp add: step_db_def loop_db_def)
  qed
qed

lemma scrape_try_ext:
  "(case scrape_try g W cfg job st of Inl (e, l, st') \<Rightarrow> run_ext W st st'
    | Inr st' \<Rightarrow> run_ext W st st')"
proof (cases "urljoin W (base_url cfg) (or_default (start_path cfg) ''/'')")
  case (Inl e)
  then show ?thesis by (simp add: scrape_try_def)
next
  case u: (Inr start_url)
  let ?r = "page_loop g W cfg job 0 (max_pages cfg) (locals0\<lparr>next_url := Some start_url\<rparr>) st"
  have pl: "run_ext W st (loop_db ?r)" by (rule page_loop_ext)
  show ?thesis
  proof (cases ?r)
    case (Inl x)
    with pl u show ?thesis by (auto simp: scrape_try_def loop_db_def)
  next
    case (Inr x)
    obtain l st2 where x: "x = (l, st2)" by (cases x)
    with pl Inr have m: "run_ext W st st2" by (simp add: loop_db_def)
    show ?thesis
    proof (cases "increment_counters job (fetched l) (saved l) (errors l) st2")
      case (Inl e)
      with u Inr x m show ?thesis by (simp add: scrape_try_def)
    next
      case i: (Inr st3)
      from m increment_counters_ext [OF i] have m3: "run_ext W st st3"
        by (rule run_ext_trans)
      show ?thesis
      proof (cases "snd (mark_finished job True (now_finished W) st3)")
        case (Inl e)
        with u Inr x i m3 show ?thesis
          by (auto simp: scrape_try_def split: prod.splits)
      next
        case f: (Inr st4)
        from m3 mark_finished_ext [OF f] have "run_ext W st st4" by (rule run_ext_trans)
        moreover have "run_ext W st4 (st4\<lparr>logged := logged st4 @ [Info_finished (job_id job)]\<rparr>)"
          by (simp add: run_ext_same)
        ultimately have "run_ext W st (st4\<lparr>logged := logged st4 @ [Info_finished (job_id job)]\<rparr>)"
          by (rule run_ext_trans)
        with u Inr x i f show ?thesis
          by (auto simp: scrape_try_def split: prod.splits)
      qed
    qed
  qed
qed

lemma fatal_handler_ext: "run_ext W st (snd (fatal_handler W job fatal l st))"
proof -
  let ?st1 = "st\<lparr>scrape_errors := scrape_errors st @
                    [\<lparr>err_job = job_id job, err_url = None, error_type = ''fatal'',
                      message = str_exn fatal\<rparr>]\<rparr>"
  have m1: "run_ext W st ?st1" by (simp add: run_ext_same)
  show ?thesis
  proof (cases "increment_counters job (fetched l) (saved l) 1 ?st1")
    case (Inl e)
    with m1 show ?thesis by (simp add: fatal_handler_def Let_def)
  next
    case i: (Inr st2)
    from m1 increment_counters_ext [OF i] have m12: "run_ext W st st2" by (rule run_ext_trans)
    show ?thesis
    proof (cases "snd (mark_finished job False (now_finished W) st2)")
      case (Inl e)
      with i m12 show ?thesis
        by (auto simp: fatal_handler_def Let_def split: prod.splits)
    next
      case f: (Inr st3)
      from m12 mark_finished_ext [OF f] have "run_ext W st st3" by (rule run_ext_trans)
      moreover have "run_ext W st3 (st3\<lparr>logged := logged st3 @ [Exception_fatal (job_id job)]\<rparr>)"
        by (simp add: run_ext_same)
      ultimately have "run_ext W st (st3\<lparr>logged := logged st3 @ [Exception_fatal (job_id job)]\<rparr>)"
        by (rule run_ext_trans)
      with i f show ?thesis
        by (auto simp: fatal_handler_def Let_def split: prod.splits)
    qed
  qed
qed

lemma scrape_begin_ext:
  "scrape_begin W pk st = Inl (e, st0) \<or> scrape_begin W pk st = Inr (job, cfg, st0)
     \<Longrightarrow> run_ext W st st0"
proof -
  assume r: "scrape_begin W pk st = Inl (e, st0) \<or> scrape_begin W pk st = Inr (job, cfg, st0)"
  let ?st0 = "st\<lparr>logged := logged st @ [Info_start pk]\<rparr>"
  have m0: "run_ext W st ?st0" by (simp add: run_ext_same)
  show ?thesis
  proof (cases "load_job ?st0 pk")
    case (Inl e')
    with r m0 show ?thesis by (auto simp: scrape_begin_def Let_def)
  next
    case (Inr x)
    obtain job0 cfg0 where x: "x = (job0, cfg0)" by (cases x)
    obtain job1 r1 where mr: "mark_running job0 (now_started W) ?st0 = (job1, r1)"
      by (cases "mark_running job0 (now_started W) ?st0")
    show ?thesis
    proof (cases r1)
      case (Inl e')
      with r Inr x mr m0 show ?thesis by (auto simp: scrape_begin_def Let_def)
    next
      case r1: (Inr st1)
      from mr r1 have "snd (mark_running job0 (now_started W) ?st0) = Inr st1" by simp
      from m0 mark_running_ext [OF this] have "run_ext W st st1"
        by (rule run_ext_trans)
      with r Inr x mr r1 show ?thesis by (auto simp: scrape_begin_def Let_def)
    qed
  qed
qed

lemma scrape_site_with_ext: "run_ext W st (snd (scrape_site_with g W pk st))"
proof (cases "scrape_begin W pk st")
  case (Inl x)
  obtain e st0 where x: "x = (e, st0)" by (cases x)
  with Inl scrape_begin_ext [of W pk st e st0] show ?thesis
    by (simp add: scrape_site_with_def)
next
  case (Inr x)
  obtain job cfg st1 where x: "x = (job, cfg, st1)" by (cases x)
  with Inr scrape_begin_ext [where W = W and pk = pk and st = st and job = job and cfg = cfg
      and ?st0.0 = st1]
  have m1: "run_ext W st st1" by simp
  show ?thesis
  proof (cases "scrape_try g W cfg job st1")
    case ok: (Inr st')
    with scrape_try_ext [where g = g and W = W and cfg = cfg and job = job and st = st1]
    have "run_ext W st1 st'" by simp
    with m1 have "run_ext W st st'" by (rule run_ext_trans)
    with Inr x ok show ?thesis by (simp add: scrape_site_with_def)
  next
    case (Inl y)
    obtain e l st' where y: "y = (e, l, st')" by (cases y)
    with scrape_try_ext [where g = g and W = W and cfg = cfg and job = job and st = st1] Inl
    have m2: "run_ext W st1 st'" by simp
    from run_ext_trans [OF m1 m2] fatal_handler_ext [where st = st' and W = W and job = job
        and fatal = e and l = l]
    have "run_ext W st (snd (fatal_handler W job e l st'))"
      by (rule run_ext_trans)
    with Inr x Inl y show ?thesis by (simp add: scrape_site_with_def)
  qed
qed

section \<open>Stored hashes\<close>

lemma run_ext_hashes_ok:
  assumes "run_ext W st st'" and "stored_hashes_ok st" and "writers_ok W"
  shows "stored_hashes_ok st'"
  unfolding stored_hashes_ok_def list_all_iff
proof
  fix r
  assume "r \<in> set (quotes st')"
  with assms(1) have "r \<in> set (quotes st) \<or> (\<exists>p i. r \<in> set (other_writer W p i)) \<or> hex64 (q_hash r)"
    unfolding run_ext_def by blast
  with assms(2,3) show "hex64 (q_hash r)"
    by (auto simp: stored_hashes_ok_def writers_ok_def list_all_iff)
qed

lemma Quote_save_row:
  "Quote_save q st = Inr (q', st') \<Longrightarrow>
     hash q' \<noteq> [] \<and> (\<exists>row. quotes st' = quotes st @ [row] \<and> q_hash row = hash q')"
  by (auto simp: Quote_save_def Let_def split: if_splits)

lemma QuoteSerializer_create_row:
  assumes "QuoteSerializer_create vd st = (Inr q', st')"
  shows "hex64 (hash q') \<and> (\<exists>row. quotes st' = quotes st @ [row] \<and> q_hash row = hash q')"
proof -
  let ?name = "strip (or_empty (vd_author_name vd))"
  obtain auth st1 where a:
    "(if vd_author vd = None \<and> ?name \<noteq> []
      then (case get_or_create_author ?name st of (a, s) \<Rightarrow> (Some a, s))
      else (vd_author vd, st)) = (auth, st1)"
    by (cases "(if vd_author vd = None \<and> ?name \<noteq> []
      then (case get_or_create_author ?name st of (a, s) \<Rightarrow> (Some a, s))
      else (vd_author vd, st))") blast
  then have q1: "quotes st1 = quotes st"
    by (auto split: if_splits prod.splits dest: get_or_create_author_frame)
  let ?q = "\<lparr>quote_text = vd_text vd, author = auth, site = site_id (vd_site vd),
             source_url = vd_source_url vd, hash = [], saved_by_job = vd_saved_by_job vd\<rparr>"
  from assms a have s: "Quote_save ?q st1 = Inr (q', st')"
    by (auto simp: QuoteSerializer_create_def Let_def split: if_splits sum.splits)
  from Quote_save_hash [OF s] have "hex64 (hash q')" by simp
  with Quote_save_row [OF s] q1 show ?thesis by simp
qed



section \<open>Running a job again\<close>

lemma quiet_commit [simp]: "quiet W \<Longrightarrow> concurrent_commit (other_writer W p i) st = st"
  by (simp add: quiet_def)






lemma still_refl [simp]: "still pk st st"
  by (simp add: still_def)






















section \<open>The store that never refuses an error row\<close>

text \<open>With the insert that always succeeds, the functions with a fallible insert are the
  functions of the crawl model.\<close>

lemma process_candidate_ins_reliable:
  "process_candidate_ins ScrapeError_create W cfg job p url an i q ls
     = Inr (process_candidate W cfg job p url an i q ls)"
  by (cases ls)
     (simp add: process_candidate_ins_def process_candidate_def ScrapeError_create_def
        split: sum.splits prod.splits)

lemma candidates_loop_ins_reliable:
  "candidates_loop_ins ScrapeError_create W cfg job p url an i qs ls
     = Inr (candidates_loop W cfg job p url an i qs ls)"
  by (induction qs arbitrary: i ls) (simp_all add: process_candidate_ins_reliable)

lemma scrape_page_ins_reliable:
  "scrape_page_ins ScrapeError_create g W cfg job p l st = scrape_page g W cfg job p l st"
  by (simp add: scrape_page_ins_def scrape_page_def candidates_loop_ins_reliable
      ScrapeError_create_def Let_def split: sum.splits)

lemma page_loop_ins_reliable:
  "page_loop_ins ScrapeError_create g W cfg job p n l st = page_loop g W cfg job p n l st"
  by (induction n arbitrary: p l st) (simp_all add: scrape_page_ins_reliable split: step.splits)

lemma scrape_try_ins_reliable:
  "scrape_try_ins ScrapeError_create g W cfg job st = scrape_try g W cfg job st"
  by (simp add: scrape_try_ins_def scrape_try_def page_loop_ins_reliable cong: sum.case_cong)

lemma fatal_handler_ins_reliable:
  "fatal_handler_ins ScrapeError_create W job fatal l st = fatal_handler W job fatal l st"
  by (simp add: fatal_handler_ins_def fatal_handler_def ScrapeError_create_def Let_def)

lemma scrape_site_ins_reliable: "scrape_site_ins ScrapeError_create = scrape_site"
  by (intro ext)
     (simp add: scrape_site_ins_def scrape_site_def scrape_site_with_def scrape_try_ins_reliable
        fatal_handler_ins_reliable cong: sum.case_cong prod.case_cong)

text \<open>The fatal handler adds one error to the job, whatever error delta is pending.\<close>

lemma fatal_handler_adds_one_error:
  assumes "jobs st (job_id job) = Some r"
  shows "\<exists>st' r'. fatal_handler W job fatal l st = (Inl fatal, st')
           \<and> jobs st' (job_id job) = Some r'
           \<and> errors_count r' = errors_count r + 1
           \<and> quotes_fetched r' = quotes_fetched r + fetched l
           \<and> quotes_saved r' = quotes_saved r + saved l
           \<and> status r' = FAILED"
  using assms
  by (simp add: fatal_handler_def increment_counters_def mark_finished_def Let_def)

section \<open>Finalization of a job\<close>

text \<open>
  C1 does not hold of the job's counters. \<^verbatim>\<open>mark_finished\<close> applies the status rule to the
  counters of the instance it is called on, and \<^verbatim>\<open>increment_counters\<close> adds the deltas to
  a row it reads again, never to that instance: when the task finalizes the job (line 148)
  the instance still carries the counters it was loaded with. In the first run below one
  page is fetched, its one quote is saved and nothing fails. The row ends with
  quotes\_saved = 1 and errors\_count = 0, for which the rule gives SUCCESS, and the status
  stored is FAILED. The same job run again is loaded with quotes\_saved = 1; that run saves
  nothing and is stored as SUCCESS.
\<close>

theorem clean_run_is_stored_failed:
  "fst (scrape_site world_once ''job-a'' db_A) = Inr ''done''
   \<and> scrape_errors (snd (scrape_site world_once ''job-a'' db_A)) = []
   \<and> map_option (\<lambda>r. (status r, quotes_fetched r, quotes_saved r, errors_count r, finished_at r))
         (jobs (snd (scrape_site world_once ''job-a'' db_A)) ''job-a'')
       = Some (FAILED, 1, 1, 0, Some 20)
   \<and> map_option (\<lambda>r. (status r, quotes_fetched r, quotes_saved r, errors_count r))
         (jobs (snd (scrape_site world_once ''job-a''
                       (snd (scrape_site world_once ''job-a'' db_A)))) ''job-a'')
       = Some (SUCCESS, 2, 1, 0)"
  by (simp add: scrape_site_def scrape_site_with_def scrape_begin_def load_job_def
      mark_running_def scrape_try_def scrape_page_def
      process_candidate_def candidate_try_def resolve_author_def select_one_def
      Quote_save_def concurrent_commit_def hashes_def decide_next_def
      increment_counters_def mark_finished_def same_page_guard_def
      locals0_def truthy_def or_empty_def or_default_def Let_def
      world_once_def world_down_def soup_race_def node_hello_def
      db_A_def site_A_def job_A_def numeral_2_eq_2)

section \<open>Counter monotonicity\<close>

text \<open>
  C8. The three counters of a job record never decrease. For every job row:
  \<^verbatim>\<open>increment_counters\<close> with non-negative deltas leaves each counter of the row greater
  than or equal to its previous value; \<^verbatim>\<open>mark_running\<close> and \<^verbatim>\<open>mark_finished\<close> leave the
  counters of the row and of the instance as they were; and a whole run of
  \<^verbatim>\<open>scrape_site\<close>, whose deltas are the counts the crawl loop accumulates, ends with every
  job row present and each of its counters at least its value before the run.
\<close>

theorem counters_never_decrease:
  "(jobs st pk = Some r \<and> 0 \<le> f \<and> 0 \<le> s \<and> 0 \<le> e
      \<and> increment_counters self f s e st = Inr st'
      \<longrightarrow> (\<exists>r'. jobs st' pk = Some r' \<and> counters_le r r'))
   \<and> (jobs st pk = Some r \<and> snd (mark_running self now st) = Inr st'
      \<longrightarrow> (\<exists>r'. jobs st' pk = Some r' \<and> counters_le r r')
          \<and> counters_le self (fst (mark_running self now st)))
   \<and> (jobs st pk = Some r \<and> snd (mark_finished self success now st) = Inr st'
      \<longrightarrow> (\<exists>r'. jobs st' pk = Some r' \<and> counters_le r r')
          \<and> counters_le self (fst (mark_finished self success now st)))
   \<and> (jobs st pk = Some r
      \<longrightarrow> (\<exists>r'. jobs (snd (scrape_site W jid st)) pk = Some r' \<and> counters_le r r'))"
proof (intro conjI impI)
  assume "jobs st pk = Some r \<and> 0 \<le> f \<and> 0 \<le> s \<and> 0 \<le> e
      \<and> increment_counters self f s e st = Inr st'"
  then have "jobs st pk = Some r" "jobs_mono st st'"
    using increment_counters_mono [of f s e self st st'] by simp_all
  then show "\<exists>r'. jobs st' pk = Some r' \<and> counters_le r r'"
    by (simp add: jobs_mono_def)
next
  assume a: "jobs st pk = Some r \<and> snd (mark_running self now st) = Inr st'"
  then have "jobs_mono st st'" using mark_running_mono by blast
  with a show "\<exists>r'. jobs st' pk = Some r' \<and> counters_le r r'"
    by (simp add: jobs_mono_def)
  show "counters_le self (fst (mark_running self now st))"
    by (simp add: mark_running_def Let_def counters_le_def)
next
  assume a: "jobs st pk = Some r \<and> snd (mark_finished self success now st) = Inr st'"
  then have "jobs_mono st st'" using mark_finished_mono by blast
  with a show "\<exists>r'. jobs st' pk = Some r' \<and> counters_le r r'"
    by (simp add: jobs_mono_def)
  show "counters_le self (fst (mark_finished self success now st))"
    by (simp add: mark_finished_fst counters_le_def)
next
  assume "jobs st pk = Some r"
  with scrape_site_with_mono [of st same_page_guard W jid]
  show "\<exists>r'. jobs (snd (scrape_site W jid st)) pk = Some r' \<and> counters_le r r'"
    by (simp add: jobs_mono_def scrape_site_def)
qed

theorem counters_never_decrease_witness:
  "(\<exists>st' r'. increment_counters job_A 1 2 0 db_A = Inr st'
       \<and> jobs st' ''job-a'' = Some r' \<and> counters_le job_A r')
   \<and> (\<exists>r'. jobs (snd (scrape_site world_down ''job-a'' db_A)) ''job-a'' = Some r'
          \<and> counters_le job_A r')"
proof -
  have j: "jobs db_A ''job-a'' = Some job_A"
    by (simp add: db_A_def)
  obtain st' where i: "increment_counters job_A 1 2 0 db_A = Inr st'"
    by (simp add: increment_counters_def db_A_def job_A_def)
  show ?thesis
    using counters_never_decrease [where st = db_A and pk = "''job-a''" and r = job_A
        and f = 1 and s = 2 and e = 0 and self = job_A and st' = st' and W = world_down
        and jid = "''job-a''"] j i
    by simp
qed

section \<open>Failure of the first fetch\<close>



section \<open>Fatal exceptions\<close>

text \<open>
  C3 does not hold of the code. The fatal handler flushes the pending fetched and saved
  deltas but passes the constant 1 as error delta (line 154), where the flush at the end
  of the body passes the pending errors (line 146): an exception that leaves the body
  while an error is pending loses that error. In the run below the first page is fetched
  and its quote saved; its next link has a target of more than a thousand characters; the
  fetch of that target fails, which counts one error, and the store refuses the
  ScrapeError row of that failure because its url is too long. That exception enters the
  handler with the pending deltas fetched 0, saved 0, errors 1. The handler records the
  "fatal" ScrapeError, marks the job FAILED and the exception reaches the caller, as the
  claim says; but the job ends with errors\_count = 1, where the pending error plus one
  more is 2.
\<close>

theorem pending_errors_are_dropped:
  "pending (scrape_try_ins ScrapeError_create_strict same_page_guard world_long
              (site_A\<lparr>site_id := 1\<rparr>)
              (job_A\<lparr>status := RUNNING, started_at := Some 10\<rparr>)
              (db_A\<lparr>logged := [Info_start ''job-a''],
                    jobs := [''job-a'' \<mapsto> job_A\<lparr>status := RUNNING, started_at := Some 10\<rparr>]\<rparr>))
     = Some (DatabaseError ''value too long for type character varying(1000)'', 0, 0, 1)
   \<and> fst (scrape_site_ins ScrapeError_create_strict world_long ''job-a'' db_A)
       = Inl (DatabaseError ''value too long for type character varying(1000)'')
   \<and> map error_type
         (scrape_errors (snd (scrape_site_ins ScrapeError_create_strict world_long ''job-a'' db_A)))
       = [''fatal'']
   \<and> map_option (\<lambda>r. (status r, quotes_fetched r, quotes_saved r, errors_count r))
         (jobs (snd (scrape_site_ins ScrapeError_create_strict world_long ''job-a'' db_A)) ''job-a'')
       = Some (FAILED, 1, 1, 1)"
  by (simp add: scrape_site_ins_def scrape_try_ins_def scrape_page_ins_def fatal_handler_ins_def
      process_candidate_ins_def ScrapeError_create_strict_def pending_def
      scrape_begin_def load_job_def mark_running_def
      candidate_try_def resolve_author_def select_one_def
      Quote_save_def concurrent_commit_def hashes_def decide_next_def py_or_def
      increment_counters_def mark_finished_def same_page_guard_def
      locals0_def truthy_def or_empty_def or_default_def Let_def
      world_long_def world_down_def soup_long_def link_long_def node_hello_def
      db_A_def site_A_def job_A_def numeral_2_eq_2)

section \<open>Author resolution\<close>

text \<open>
  C7. For the quote node at positional index \<open>i\<close> of a page the author is resolved in
  priority order: when the independently selected author-node sequence has an entry at
  index \<open>i\<close>, the text of that entry is used; otherwise, when an author selector is
  configured and it matches inside the quote node's own subtree, the text of that match
  is used; otherwise (no selector, or no match) the author is absent. A candidate with
  absent author whose hash is not stored yet is saved with a null author reference.
\<close>

theorem author_resolution_priority:
  "(i < length author_nodes
      \<longrightarrow> resolve_author cfg author_nodes i qnode
            = (case get_text (author_nodes ! i) of Inl e \<Rightarrow> Inl e | Inr a \<Rightarrow> Inr (Some a)))
   \<and> (\<not> i < length author_nodes \<and> author_selector cfg \<noteq> []
       \<and> select_one qnode (author_selector cfg) = Inr (Some possible)
      \<longrightarrow> resolve_author cfg author_nodes i qnode
            = (case get_text possible of Inl e \<Rightarrow> Inl e | Inr a \<Rightarrow> Inr (Some a)))
   \<and> (\<not> i < length author_nodes
       \<and> (author_selector cfg = [] \<or> select_one qnode (author_selector cfg) = Inr None)
      \<longrightarrow> resolve_author cfg author_nodes i qnode = Inr None)
   \<and> (get_text qnode = Inr tx \<and> resolve_author cfg author_nodes i qnode = Inr None
       \<and> compute_quote_hash (Some tx) None \<notin> hashes (concurrent_commit (other_writer W p i) st)
      \<longrightarrow> candidate_try W cfg job p url author_nodes i qnode st
            = Inr (True,
                (concurrent_commit (other_writer W p i) st)
                  \<lparr>quotes := quotes (concurrent_commit (other_writer W p i) st) @
                     [\<lparr>q_text = tx, q_author = None, q_site = site_id cfg,
                       q_source_url = Some url, q_hash = compute_quote_hash (Some tx) None,
                       q_saved_by_job = Some (job_id job)\<rparr>]\<rparr>))"
proof (intro conjI impI)
  assume "i < length author_nodes"
  then show "resolve_author cfg author_nodes i qnode
            = (case get_text (author_nodes ! i) of Inl e \<Rightarrow> Inl e | Inr a \<Rightarrow> Inr (Some a))"
    by (auto simp: resolve_author_def)
next
  assume "\<not> i < length author_nodes \<and> author_selector cfg \<noteq> []
       \<and> select_one qnode (author_selector cfg) = Inr (Some possible)"
  then show "resolve_author cfg author_nodes i qnode
            = (case get_text possible of Inl e \<Rightarrow> Inl e | Inr a \<Rightarrow> Inr (Some a))"
    by (simp add: resolve_author_def)
next
  assume "\<not> i < length author_nodes
       \<and> (author_selector cfg = [] \<or> select_one qnode (author_selector cfg) = Inr None)"
  then show "resolve_author cfg author_nodes i qnode = Inr None"
    by (auto simp: resolve_author_def)
next
  assume a: "get_text qnode = Inr tx \<and> resolve_author cfg author_nodes i qnode = Inr None
       \<and> compute_quote_hash (Some tx) None \<notin> hashes (concurrent_commit (other_writer W p i) st)"
  then have "compute_quote_hash (Some tx) None \<notin> hashes st"
    using concurrent_commit_hashes [of st "other_writer W p i"] by blast
  with a show "candidate_try W cfg job p url author_nodes i qnode st
            = Inr (True,
                (concurrent_commit (other_writer W p i) st)
                  \<lparr>quotes := quotes (concurrent_commit (other_writer W p i) st) @
                     [\<lparr>q_text = tx, q_author = None, q_site = site_id cfg,
                       q_source_url = Some url, q_hash = compute_quote_hash (Some tx) None,
                       q_saved_by_job = Some (job_id job)\<rparr>]\<rparr>)"
    by (simp add: candidate_try_def Quote_save_def truthy_def Let_def)
qed

theorem author_resolution_priority_witness:
  "resolve_author site_A [node_bob] 0 node_hello = Inr (Some ''Bob'')
   \<and> resolve_author site_A [node_bob] 1 node_hello = Inr None
   \<and> (\<exists>st'. candidate_try world_down site_A job_A 0 ''http://quotes.example/'' [node_bob] 1
               node_hello db_A = Inr (True, st')
            \<and> map q_author (quotes st') = [None] \<and> map q_text (quotes st') = [''Hello  World''])"
proof -
  have s: "select_one node_hello (author_selector site_A) = Inr None"
    by (simp add: select_one_def node_hello_def)
  have g: "get_text node_hello = Inr ''Hello  World''" "get_text node_bob = Inr ''Bob''"
    by (simp_all add: node_hello_def node_bob_def)
  have h: "compute_quote_hash (Some ''Hello  World'') None
             \<notin> hashes (concurrent_commit (other_writer world_down 0 1) db_A)"
    by (simp add: world_down_def hashes_def db_A_def)
  have r0: "resolve_author site_A [node_bob] 0 node_hello = Inr (Some ''Bob'')"
    using author_resolution_priority [where i = 0 and author_nodes = "[node_bob]"
        and cfg = site_A and qnode = node_hello] g
    by simp
  have r1: "resolve_author site_A [node_bob] 1 node_hello = Inr None"
    using author_resolution_priority [where i = 1 and author_nodes = "[node_bob]"
        and cfg = site_A and qnode = node_hello] s
    by simp
  show ?thesis
    using author_resolution_priority [where i = 1 and author_nodes = "[node_bob]"
        and cfg = site_A and qnode = node_hello and tx = "''Hello  World''" and W = world_down
        and p = 0 and st = db_A and job = job_A and url = "''http://quotes.example/''"]
      r0 r1 g h
    by (simp add: world_down_def db_A_def)
qed

section \<open>The same-page guard\<close>

text \<open>
  C9. The guard of lines 140 to 143 is a no-op: whatever pagination target was
  discovered and resolved against the base URL is the next-page URL the loop uses; one
  page iteration, and the whole task, with the guard are equal to the same with the guard
  removed; and a page whose pagination link resolves to its own URL is fetched again on
  every iteration, so the run fetches it exactly \<^verbatim>\<open>max_pages\<close> times and then finishes.
\<close>

theorem same_page_guard_is_noop:
  "same_page_guard W nu = nu
   \<and> scrape_page same_page_guard W cfg job p l st0 = scrape_page no_guard W cfg job p l st0
   \<and> scrape_site W jid st = scrape_site_unguarded W jid st
   \<and> (scrape_begin W jid st = Inr (job, cfg, st1) \<and> jobs st1 jid = Some r1
       \<and> urljoin W (base_url cfg) (or_default (start_path cfg) ''/'') = Inr u \<and> u \<noteq> []
       \<and> requests_get W u = Inr resp \<and> BeautifulSoup W resp = Inr soup
       \<and> select soup (quote_selector cfg) = Inr qn
       \<and> (if author_selector cfg \<noteq> [] then select soup (author_selector cfg) else Inr [])
           = Inr an
       \<and> decide_next W cfg soup = Inr (Some u)
      \<longrightarrow> (\<exists>st' r'. scrape_site W jid st = (Inr ''done'', st') \<and> jobs st' jid = Some r'
             \<and> quotes_fetched r' = quotes_fetched r1 + int (max_pages cfg)))"
proof (intro conjI impI)
  show "same_page_guard W nu = nu" by (rule same_page_guard_noop)
  show "scrape_page same_page_guard W cfg job p l st0 = scrape_page no_guard W cfg job p l st0"
    by (simp add: same_page_guard_eq)
  show "scrape_site W jid st = scrape_site_unguarded W jid st"
    by (simp add: scrape_site_def scrape_site_unguarded_def same_page_guard_eq)
next
  assume a: "scrape_begin W jid st = Inr (job, cfg, st1) \<and> jobs st1 jid = Some r1
       \<and> urljoin W (base_url cfg) (or_default (start_path cfg) ''/'') = Inr u \<and> u \<noteq> []
       \<and> requests_get W u = Inr resp \<and> BeautifulSoup W resp = Inr soup
       \<and> select soup (quote_selector cfg) = Inr qn
       \<and> (if author_selector cfg \<noteq> [] then select soup (author_selector cfg) else Inr [])
           = Inr an
       \<and> decide_next W cfg soup = Inr (Some u)"
  then have j: "job_id job = jid" using scrape_begin_job by blast
  have z: "zeroed (locals0\<lparr>next_url := Some u\<rparr>)" "next_url (locals0\<lparr>next_url := Some u\<rparr>) = Some u"
    by (simp_all add: zeroed_def locals0_def)
  from a j have r: "jobs st1 (job_id job) = Some r1" by simp
  from a have pre: "requests_get W u = Inr resp" "BeautifulSoup W resp = Inr soup"
    "select soup (quote_selector cfg) = Inr qn"
    "(if author_selector cfg \<noteq> [] then select soup (author_selector cfg) else Inr []) = Inr an"
    "decide_next W cfg soup = Inr (Some u)" "u \<noteq> []" by simp_all
  have g: "same_page_guard W (Some u) = Some u" by (rule same_page_guard_noop)
  from page_loop_self_link [where g = same_page_guard and p = 0 and n = "max_pages cfg",
      OF pre g z r]
  obtain l' st' r' where pl:
    "page_loop same_page_guard W cfg job 0 (max_pages cfg) (locals0\<lparr>next_url := Some u\<rparr>) st1
       = Inr (l', st')" "zeroed l'" "jobs st' (job_id job) = Some r'"
    "quotes_fetched r' = quotes_fetched r1 + int (max_pages cfg)"
    by blast
  with a j show "\<exists>st' r'. scrape_site W jid st = (Inr ''done'', st') \<and> jobs st' jid = Some r'
             \<and> quotes_fetched r' = quotes_fetched r1 + int (max_pages cfg)"
    by (simp add: scrape_site_def scrape_site_with_def scrape_try_def increment_counters_def
        mark_finished_def zeroed_def Let_def)
qed

theorem same_page_guard_is_noop_witness:
  "scrape_site world_loop ''job-a'' db_A = scrape_site_unguarded world_loop ''job-a'' db_A
   \<and> (\<exists>st' r'. scrape_site world_loop ''job-a'' db_A = (Inr ''done'', st')
          \<and> jobs st' ''job-a'' = Some r' \<and> quotes_fetched r' = 2)"
proof -
  let ?job = "job_A\<lparr>job_id := ''job-a'', status := RUNNING,
                    started_at := Some (now_started world_loop)\<rparr>"
  let ?cfg = "site_A\<lparr>site_id := job_site job_A\<rparr>"
  let ?r1 = "job_A\<lparr>status := RUNNING, started_at := Some (now_started world_loop)\<rparr>"
  let ?st1 = "db_A\<lparr>logged := logged db_A @ [Info_start ''job-a''],
                  jobs := (jobs db_A)(''job-a'' \<mapsto> ?r1)\<rparr>"
  have b: "scrape_begin world_loop ''job-a'' db_A = Inr (?job, ?cfg, ?st1)"
    by (rule scrape_begin_ok) (simp_all add: db_A_def job_A_def)
  have d: "decide_next world_loop ?cfg soup_loop = Inr (Some ''http://quotes.example/'')"
    by (simp add: decide_next_def select_one_def soup_loop_def link_self_def py_or_def
        truthy_def or_empty_def site_A_def world_loop_def world_down_def)
  have h: "scrape_begin world_loop ''job-a'' db_A = Inr (?job, ?cfg, ?st1)
       \<and> jobs ?st1 ''job-a'' = Some ?r1
       \<and> urljoin world_loop (base_url ?cfg) (or_default (start_path ?cfg) ''/'')
           = Inr ''http://quotes.example/''
       \<and> ''http://quotes.example/'' \<noteq> []
       \<and> requests_get world_loop ''http://quotes.example/'' = Inr ''<html>''
       \<and> BeautifulSoup world_loop ''<html>'' = Inr soup_loop
       \<and> select soup_loop (quote_selector ?cfg) = Inr []
       \<and> (if author_selector ?cfg \<noteq> [] then select soup_loop (author_selector ?cfg) else Inr [])
           = Inr []
       \<and> decide_next world_loop ?cfg soup_loop = Inr (Some ''http://quotes.example/'')"
    using b d
    by (simp add: world_loop_def world_down_def site_A_def soup_loop_def or_default_def)
  note T = same_page_guard_is_noop [where W = world_loop and jid = "''job-a''" and st = db_A
      and job = ?job and cfg = ?cfg and ?st1.0 = ?st1 and ?r1.0 = ?r1
      and u = "''http://quotes.example/''" and resp = "''<html>''" and soup = soup_loop
      and qn = "[]" and an = "[]" and nu = None and p = 0 and l = locals0 and ?st0.0 = db_A]
  from T h have e: "scrape_site world_loop ''job-a'' db_A
                      = scrape_site_unguarded world_loop ''job-a'' db_A"
    by blast
  from T h obtain st' r' where x: "scrape_site world_loop ''job-a'' db_A = (Inr ''done'', st')"
    "jobs st' ''job-a'' = Some r'"
    "quotes_fetched r' = quotes_fetched ?r1 + int (max_pages ?cfg)"
    by blast
  from x(3) have "quotes_fetched r' = 2"
    by (simp add: site_A_def job_A_def)
  with e x(1,2) show ?thesis by blast
qed

section \<open>A uniqueness violation past the existence check\<close>

text \<open>
  C6 does not hold of the code. In the first run below another writer commits a quote with
  the hash of the page's only candidate between the existence check and the insert. The
  insert violates the unique constraint and the exception is caught by the per-candidate
  guard, the generic \<^verbatim>\<open>except Exception\<close>: the task is not aborted and returns, but the
  duplicate is not passed over. A ScrapeError of type "parse" is recorded and one error is
  counted on the job. In the second run the same row is stored before the run starts, so
  the existence check finds it: nothing is recorded and no error is counted. The task
  imports \<^verbatim>\<open>IntegrityError\<close> and never names it.
\<close>

theorem racing_duplicate_is_counted_as_error:
  "fst (scrape_site world_race ''job-a'' db_A) = Inr ''done''
   \<and> quotes (snd (scrape_site world_race ''job-a'' db_A)) = [racing_row]
   \<and> map error_type (scrape_errors (snd (scrape_site world_race ''job-a'' db_A))) = [''parse'']
   \<and> map_option errors_count (jobs (snd (scrape_site world_race ''job-a'' db_A)) ''job-a'') = Some 1
   \<and> fst (scrape_site world_once ''job-a'' (db_A\<lparr>quotes := [racing_row]\<rparr>)) = Inr ''done''
   \<and> quotes (snd (scrape_site world_once ''job-a'' (db_A\<lparr>quotes := [racing_row]\<rparr>)))
       = [racing_row]
   \<and> scrape_errors (snd (scrape_site world_once ''job-a'' (db_A\<lparr>quotes := [racing_row]\<rparr>))) = []
   \<and> map_option errors_count
         (jobs (snd (scrape_site world_once ''job-a'' (db_A\<lparr>quotes := [racing_row]\<rparr>))) ''job-a'')
       = Some 0"
  by (simp add: scrape_site_def scrape_site_with_def scrape_begin_def load_job_def
      mark_running_def scrape_try_def scrape_page_def
      process_candidate_def candidate_try_def resolve_author_def select_one_def
      Quote_save_def concurrent_commit_def hashes_def decide_next_def
      increment_counters_def mark_finished_def same_page_guard_def
      locals0_def truthy_def or_empty_def or_default_def Let_def
      world_once_def world_race_def world_down_def soup_race_def node_hello_def racing_row_def
      db_A_def site_A_def job_A_def numeral_2_eq_2)

section \<open>Every stored quote carries its hash\<close>

text \<open>
  C10. A Quote saved with its hash unset gets, before it is stored, the hash computed
  from its text and the name of its linked author (the empty string when the author
  reference is null), a 64-character hex string. Every row that \<^verbatim>\<open>Quote.save\<close> stores has
  a non-empty hash. A quote created through \<^verbatim>\<open>QuoteSerializer.create\<close> is stored with a
  64-character hex hash, and so is every quote the crawl loop stores: when all stored
  rows (and the rows another writer commits meanwhile) carry 64-character hex hashes,
  they still do after the serializer's create and after a run of \<^verbatim>\<open>scrape_site\<close>.
\<close>

theorem stored_quotes_carry_hash:
  "(hash q = [] \<and> Quote_save q st = Inr (q', st')
      \<longrightarrow> hash q' = compute_quote_hash (Some (quote_text q))
                       (Some (case author q of None \<Rightarrow> [] | Some a \<Rightarrow> author_name a))
          \<and> hex64 (hash q'))
   \<and> (Quote_save q st = Inr (q', st')
      \<longrightarrow> hash q' \<noteq> [] \<and> (\<exists>row. quotes st' = quotes st @ [row] \<and> q_hash row = hash q'))
   \<and> (QuoteSerializer_create vd st = (Inr q', st')
      \<longrightarrow> hex64 (hash q') \<and> (\<exists>row. quotes st' = quotes st @ [row] \<and> q_hash row = hash q')
          \<and> (stored_hashes_ok st \<longrightarrow> stored_hashes_ok st'))
   \<and> (stored_hashes_ok st \<and> writers_ok W
      \<longrightarrow> stored_hashes_ok (snd (scrape_site W jid st)))"
proof (intro conjI impI)
  assume a: "hash q = [] \<and> Quote_save q st = Inr (q', st')"
  then have "hash q' = compute_quote_hash (Some (quote_text q))
                       (Some (case author q of None \<Rightarrow> [] | Some a \<Rightarrow> author_name a))"
    using Quote_save_hash [of q st q' st'] by simp
  then show "hash q' = compute_quote_hash (Some (quote_text q))
                       (Some (case author q of None \<Rightarrow> [] | Some a \<Rightarrow> author_name a))"
    and "hex64 (hash q')" by simp_all
next
  assume "Quote_save q st = Inr (q', st')"
  from Quote_save_row [OF this]
  show "hash q' \<noteq> []" and "\<exists>row. quotes st' = quotes st @ [row] \<and> q_hash row = hash q'"
    by simp_all
next
  assume c: "QuoteSerializer_create vd st = (Inr q', st')"
  from QuoteSerializer_create_row [OF c]
  show h: "hex64 (hash q')"
    and r: "\<exists>row. quotes st' = quotes st @ [row] \<and> q_hash row = hash q'"
    by simp_all
  assume "stored_hashes_ok st"
  with h r show "stored_hashes_ok st'"
    by (auto simp: stored_hashes_ok_def)
next
  assume "stored_hashes_ok st \<and> writers_ok W"
  with scrape_site_with_ext [of W st same_page_guard jid]
  show "stored_hashes_ok (snd (scrape_site W jid st))"
    by (auto simp: scrape_site_def intro: run_ext_hashes_ok)
qed

theorem stored_quotes_carry_hash_witness:
  "(\<exists>q' st'. QuoteSerializer_create vd_A db_A = (Inr q', st')
       \<and> hash q' = compute_quote_hash (Some ''Hello'') (Some ''Bob'')
       \<and> hex64 (hash q') \<and> stored_hashes_ok st')
   \<and> stored_hashes_ok (snd (scrape_site world_down ''job-a'' db_A))"
proof -
  have s: "strip '' Bob '' = ''Bob''"
    by (simp add: strip_def isspace_def)
  obtain q' st' where c: "QuoteSerializer_create vd_A db_A = (Inr q', st')"
    and h: "hash q' = compute_quote_hash (Some ''Hello'') (Some ''Bob'')"
    by (simp add: QuoteSerializer_create_def vd_A_def or_empty_def s get_or_create_author_def
        Quote_save_def hashes_def db_A_def site_A_def Let_def)
  have ok: "stored_hashes_ok db_A" "writers_ok world_down"
    by (simp_all add: stored_hashes_ok_def writers_ok_def db_A_def world_down_def)
  from stored_quotes_carry_hash [where vd = vd_A and st = db_A and q' = q' and st' = st'
      and W = world_down and jid = "''job-a''"] c h ok
  show ?thesis by auto
qed




section \<open>The hash and its normalization\<close>

text \<open>
  C5, as it stands, does not hold for every input pair: the output is not always a
  digest. A Python string may hold a surrogate code point, \<^verbatim>\<open>payload.encode("utf-8")\<close>
  raises \<^verbatim>\<open>UnicodeEncodeError\<close> on it, and \<^verbatim>\<open>compute_quote_hash\<close> then returns nothing. The
  text below is the single code point U+D800.
\<close>

theorem lone_surrogate_has_no_hash:
  "compute_quote_hash_str ucd_fragment (Some [0xD800]) None
     = Inl (OtherError ''UnicodeEncodeError: surrogates not allowed'')"
  by (simp add: compute_quote_hash_str_def str_encode_utf8_def payload_str_def
      norm_text_str_def norm_author_str_def str_lower_def str_strip_def str_split.simps
      lower_ucs4_def unicode_isspace_def surrogate_def ucd_fragment_def)

text \<open>
  C5, amended. For every (text, author) pair, hashing the pair and hashing its normalized
  text and normalized author name end the same way. The normalization the code computes
  is the one the specification words: whitespace runs of the text collapsed to single
  spaces, the text stripped and lowercased; the author name stripped and lowercased, the
  empty string if absent. When the normalized payload holds no surrogate the result is
  the hex encoding of the SHA-256 digest of the UTF-8 encoding of
  \<^verbatim>\<open>"{text}|{author}"\<close> over the normalized parts, 64 characters, each one of
  \<^verbatim>\<open>0123456789abcdef\<close>; when it holds one, both calls raise \<^verbatim>\<open>UnicodeEncodeError\<close>. The
  lowercase mapping of the interpreter's character database is a parameter, of which the
  four facts of \<open>lower_table_ok\<close> are used.
\<close>

theorem hash_invariant_under_normalization:
  assumes "lower_table_ok U"
  shows "norm_text_str U t = normalize_text U t
       \<and> norm_author_str U a = normalize_author U a
       \<and> compute_quote_hash_str U t a
           = compute_quote_hash_str U (Some (normalize_text U t)) (Some (normalize_author U a))
       \<and> compute_quote_hash_str U t a
           = (if list_ex surrogate (normalize_text U t @ [0x7C] @ normalize_author U a)
              then Inl (OtherError ''UnicodeEncodeError: surrogates not allowed'')
              else Inr (hexdigest (sha256 (concat (map utf8_cp
                          (normalize_text U t @ [0x7C] @ normalize_author U a))))))
       \<and> (\<forall>h. compute_quote_hash_str U t a = Inr h \<longrightarrow>
              length h = 64 \<and> list_all (\<lambda>c. c \<in> set ''0123456789abcdef'') h)"
proof -
  have p: "payload_str U t a = normalize_text U t @ [0x7C] @ normalize_author U a"
    by (simp add: payload_str_def norm_text_as_specified norm_author_as_specified)
  have "compute_quote_hash_str U (Some (normalize_text U t)) (Some (normalize_author U a))
          = compute_quote_hash_str U t a"
    by (simp add: compute_quote_hash_str_def payload_str_idem [OF assms])
  moreover have "\<And>x. list_all (\<lambda>c. c \<in> set ''0123456789abcdef'') (hexdigest x)"
    using hexdigest_chars by (simp add: hexchars_def)
  ultimately show ?thesis
    by (auto simp: norm_text_as_specified norm_author_as_specified compute_quote_hash_str_def
        str_encode_utf8_def p length_hexdigest)
qed

theorem hash_invariant_under_normalization_witness:
  "lower_table_ok ucd_fragment
   \<and> norm_text_str ucd_fragment (Some text_greek) = text_greek_normalized
   \<and> normalize_text ucd_fragment (Some text_greek) = text_greek_normalized
   \<and> norm_author_str ucd_fragment (Some [0x20, 0x42, 0x4F, 0x42, 0x20]) = [0x62, 0x6F, 0x62]
   \<and> compute_quote_hash_str ucd_fragment (Some text_greek) (Some [0x20, 0x42, 0x4F, 0x42, 0x20])
       = compute_quote_hash_str ucd_fragment (Some text_greek_normalized) (Some [0x62, 0x6F, 0x62])
   \<and> (\<exists>h. compute_quote_hash_str ucd_fragment (Some text_greek) (Some [0x20, 0x42, 0x4F, 0x42, 0x20])
             = Inr h \<and> length h = 64)"
proof -
  have n: "normalize_text ucd_fragment (Some text_greek) = text_greek_normalized"
    by (simp add: normalize_text_def str_lower_def str_strip_def
      lower_ucs4_def final_sigma_def unicode_isspace_def
      ucd_fragment_def text_greek_def text_greek_normalized_def)
  have a: "normalize_author ucd_fragment (Some [0x20, 0x42, 0x4F, 0x42, 0x20]) = [0x62, 0x6F, 0x62]"
    by (simp add: normalize_author_def str_lower_def str_strip_def
      lower_ucs4_def unicode_isspace_def ucd_fragment_def)
  have s: "\<not> list_ex surrogate (text_greek_normalized @ [0x7C] @ [0x62, 0x6F, 0x62])"
    by (simp add: surrogate_def text_greek_normalized_def)
  note T = hash_invariant_under_normalization [OF ucd_fragment_ok, of "Some text_greek"
      "Some [0x20, 0x42, 0x4F, 0x42, 0x20]"]
  from T have t1: "norm_text_str ucd_fragment (Some text_greek)
      = normalize_text ucd_fragment (Some text_greek)" by blast
  from T have t2: "norm_author_str ucd_fragment (Some [0x20, 0x42, 0x4F, 0x42, 0x20])
      = normalize_author ucd_fragment (Some [0x20, 0x42, 0x4F, 0x42, 0x20])" by blast
  from T have t3: "compute_quote_hash_str ucd_fragment (Some text_greek)
        (Some [0x20, 0x42, 0x4F, 0x42, 0x20])
      = compute_quote_hash_str ucd_fragment
          (Some (normalize_text ucd_fragment (Some text_greek)))
          (Some (normalize_author ucd_fragment (Some [0x20, 0x42, 0x4F, 0x42, 0x20])))" by blast
  from T have "compute_quote_hash_str ucd_fragment (Some text_greek)
        (Some [0x20, 0x42, 0x4F, 0x42, 0x20])
      = (if list_ex surrogate (normalize_text ucd_fragment (Some text_greek) @ [0x7C]
               @ normalize_author ucd_fragment (Some [0x20, 0x42, 0x4F, 0x42, 0x20]))
         then Inl (OtherError ''UnicodeEncodeError: surrogates not allowed'')
         else Inr (hexdigest (sha256 (concat (map utf8_cp
                (normalize_text ucd_fragment (Some text_greek) @ [0x7C]
                 @ normalize_author ucd_fragment (Some [0x20, 0x42, 0x4F, 0x42, 0x20])))))))"
    by blast
  then have "\<exists>h. compute_quote_hash_str ucd_fragment (Some text_greek)
                 (Some [0x20, 0x42, 0x4F, 0x42, 0x20]) = Inr h \<and> length h = 64"
    unfolding n a using s by (simp add: length_hexdigest)
  with ucd_fragment_ok t1 [unfolded n] n t2 [unfolded a] t3 [unfolded n a]
  show ?thesis by blast
qed

end
